theory Spec2Isabelle
  imports Main "HOL-Library.Sublist"
begin

section \<open>Data model of \<open>src/diff.cpp\<close>\<close>

text \<open>
  The C++ program works on \<open>int\<close> positions into two \<open>std::vector\<close>s. Positions and
  lengths are modelled by unbounded \<open>int\<close>: every value the solver computes is bounded
  by the lengths of the two inputs plus \<open>max_diff\<close>, far below \<open>2^31\<close> for inputs whose
  size fits an \<open>int\<close>.

  Reading a \<open>std::vector\<close> or the \<open>std::array\<close> outside its bounds, and reading an
  uninitialised array cell, is undefined behaviour in C++; a failed \<open>assert\<close> aborts.
  The model makes each of them a value of the type \<open>error\<close>.
\<close>

datatype error = OutOfBounds | UninitialisedRead | AssertionFailed

definition bind_err :: "error + 'a \<Rightarrow> ('a \<Rightarrow> error + 'b) \<Rightarrow> error + 'b" where
  "bind_err r f = (case r of Inl e \<Rightarrow> Inl e | Inr x \<Rightarrow> f x)"

datatype EditInstructionType = Delete | Add | Change | Nop

record EditInstruction =
  type :: EditInstructionType
  orig_start :: int
  orig_length :: int
  new_start :: int
  new_length :: int

type_synonym point = "int \<times> int"

text \<open>\<open>a[i]\<close> on a \<open>std::vector\<close>, with the bounds made explicit.\<close>

definition vec_read :: "'a list \<Rightarrow> int \<Rightarrow> error + 'a" where
  "vec_read v i = (if 0 \<le> i \<and> i < int (length v) then Inr (v ! nat i) else Inl OutOfBounds)"

text \<open>Integer division of C++: the quotient is truncated towards zero.\<close>

definition c_div :: "int \<Rightarrow> int \<Rightarrow> int" where
  "c_div a b = sgn a * sgn b * (\<bar>a\<bar> div \<bar>b\<bar>)"

section \<open>\<open>DiffSolver::find_shortest_path\<close>\<close>

definition max_diff :: int where
  "max_diff = 10000"

text \<open>
  \<open>std::array<int,2*max_diff+1> buf\<close> starts uninitialised: a partial map from the
  array index to the value stored there.
\<close>

type_synonym buffer = "int \<Rightarrow> int option"

definition buf_read :: "buffer \<Rightarrow> int \<Rightarrow> error + int" where
  "buf_read buf i =
     (if 0 \<le> i \<and> i \<le> 2 * max_diff
      then (case buf i of None \<Rightarrow> Inl UninitialisedRead | Some x \<Rightarrow> Inr x)
      else Inl OutOfBounds)"

definition buf_write :: "buffer \<Rightarrow> int \<Rightarrow> int \<Rightarrow> error + buffer" where
  "buf_write buf i x =
     (if 0 \<le> i \<and> i \<le> 2 * max_diff then Inr (buf(i \<mapsto> x)) else Inl OutOfBounds)"

text \<open>The snake: \<open>while (x < n && y < m) { if (a[x] == b[y]) { x++; y++; } else break; }\<close>\<close>

function extend_snake :: "'a list \<Rightarrow> 'a list \<Rightarrow> int \<Rightarrow> int \<Rightarrow> error + point" where
  "extend_snake a b x y =
     (if x < int (length a) \<and> y < int (length b)
      then bind_err (vec_read a x) (\<lambda>ax.
           bind_err (vec_read b y) (\<lambda>by.
           if ax = by then extend_snake a b (x + 1) (y + 1) else Inr (x, y)))
      else Inr (x, y))"
  by pat_completeness auto
termination
  by (relation "measure (\<lambda>(a, b, x, y). nat (int (length a) - x))") auto

text \<open>The choice of the previous furthest reaching path, with the reads in the order
  the short-circuit operators make them.\<close>

definition select_prev :: "buffer \<Rightarrow> int \<Rightarrow> int \<Rightarrow> error + int" where
  "select_prev buf d k =
     (if k = - d then buf_read buf (max_diff + k + 1)
      else if k \<noteq> d then
        bind_err (buf_read buf (max_diff + k - 1)) (\<lambda>l.
        bind_err (buf_read buf (max_diff + k + 1)) (\<lambda>r.
        if l < r then Inr r else Inr (l + 1)))
      else bind_err (buf_read buf (max_diff + k - 1)) (\<lambda>l. Inr (l + 1)))"

text \<open>
  The loop over the diagonals \<open>k = -d, -d+2, ..., d\<close> of one round. The result is
  whether the end point was reached (the \<open>return\<close> inside the loop), the buffer and the
  record \<open>v\<close> of the round.
\<close>

function diag_loop ::
  "'a list \<Rightarrow> 'a list \<Rightarrow> int \<Rightarrow> int \<Rightarrow> buffer \<Rightarrow> int list \<Rightarrow> error + (bool \<times> buffer \<times> int list)"
where
  "diag_loop a b d k buf v =
     (if k \<le> d then
        bind_err (select_prev buf d k) (\<lambda>x0.
        bind_err (extend_snake a b x0 (x0 - k)) (\<lambda>(x, y).
        bind_err (buf_write buf (max_diff + k) x) (\<lambda>buf'.
        if x = int (length a) \<and> y = int (length b) then Inr (True, buf', v @ [x])
        else diag_loop a b d (k + 2) buf' (v @ [x]))))
      else Inr (False, buf, v))"
  by pat_completeness auto
termination
  by (relation "measure (\<lambda>(a, b, d, k, buf, v). nat (d + 1 - k))") auto

text \<open>
  The loop over the rounds \<open>d = 0, ..., max_diff - 1\<close>; the result is \<open>history_\<close>. The
  member \<open>history_\<close> of a newly constructed \<open>DiffSolver\<close> is empty, and \<open>print_diff\<close> makes
  one call of \<open>shortest_edit_script\<close> on a new solver: the model starts from the empty
  history.
\<close>

function search_loop ::
  "'a list \<Rightarrow> 'a list \<Rightarrow> nat \<Rightarrow> buffer \<Rightarrow> int list list \<Rightarrow> error + int list list"
where
  "search_loop a b d buf history =
     (if int d < max_diff then
        bind_err (diag_loop a b (int d) (- int d) buf []) (\<lambda>(reached, buf', v).
        if reached then Inr history
        else search_loop a b (Suc d) buf' (history @ [v]))
      else Inr history)"
  by pat_completeness auto
termination
  by (relation "measure (\<lambda>(a, b, d, buf, history). nat (max_diff - int d))") auto

definition find_shortest_path :: "'a list \<Rightarrow> 'a list \<Rightarrow> error + int list list" where
  "find_shortest_path a b = search_loop a b 0 (Map.empty(max_diff + 1 \<mapsto> 0)) []"

section \<open>\<open>DiffSolver::reconstruct_trace\<close>\<close>

text \<open>
  The backward loop \<open>for (int d = history_.size()-1; d >= 0; d--)\<close>: the third argument
  counts the records still to visit, so the round visited is \<open>d\<close> when it is \<open>Suc d\<close>.
  Points are pushed at the back of \<open>trace\<close>.
\<close>

fun trace_loop ::
  "int \<Rightarrow> int list list \<Rightarrow> nat \<Rightarrow> int \<Rightarrow> point list \<Rightarrow> error + point list"
where
  "trace_loop max_n history 0 k trace = Inr trace"
| "trace_loop max_n history (Suc d) k trace =
     (let v = history ! d in
      if length v \<noteq> d + 1 then Inl AssertionFailed
      else
        let idx = c_div ((k - 1) + int d) 2 in
        bind_err (if idx < 0 then Inr (- (max_n + 1)) else vec_read v idx) (\<lambda>x1.
        bind_err (if idx > int d then Inr (- (max_n + 1)) else vec_read v (idx + 1)) (\<lambda>x2.
        if x1 + 1 > x2
        then trace_loop max_n history d (k - 1) (trace @ [(x1, x1 - (k - 1))])
        else trace_loop max_n history d (k + 1) (trace @ [(x2, x2 - (k + 1))]))))"

definition reconstruct_trace :: "int \<Rightarrow> int \<Rightarrow> int list list \<Rightarrow> error + point list" where
  "reconstruct_trace n m history =
     bind_err (trace_loop (if n > m then n else m) history (length history) (n - m) [(n, m)])
       (\<lambda>trace. Inr (rev trace))"

section \<open>\<open>DiffSolver::build_edit_script\<close>\<close>

definition mk_edit :: "EditInstructionType \<Rightarrow> int \<Rightarrow> int \<Rightarrow> int \<Rightarrow> int \<Rightarrow> EditInstruction" where
  "mk_edit t os ol ns nl =
     \<lparr>type = t, orig_start = os, orig_length = ol, new_start = ns, new_length = nl\<rparr>"

text \<open>The \<open>k < kn\<close> branch: a deletion at \<open>(x, y)\<close>, merged into a preceding \<open>Delete\<close>.\<close>

definition push_delete :: "EditInstruction list \<Rightarrow> int \<Rightarrow> int \<Rightarrow> EditInstruction list" where
  "push_delete dq x y =
     (let last_edit = last dq in
      if type last_edit = Delete
      then butlast dq @ [mk_edit Delete (orig_start last_edit) (orig_length last_edit + 1) y 0]
      else dq @ [mk_edit Delete x 1 y 0])"

text \<open>The other branch: an insertion at \<open>(x, y)\<close>, merged into a preceding \<open>Add\<close>, or
  turning a preceding \<open>Delete\<close> or \<open>Change\<close> into a \<open>Change\<close>.\<close>

definition push_add :: "EditInstruction list \<Rightarrow> int \<Rightarrow> int \<Rightarrow> EditInstruction list" where
  "push_add dq x y =
     (let last_edit = last dq in
      if type last_edit = Add
      then butlast dq @ [mk_edit Add x 0 (new_start last_edit) (new_length last_edit + 1)]
      else if type last_edit = Delete \<or> type last_edit = Change
      then butlast dq @ [mk_edit Change (orig_start last_edit) (orig_length last_edit)
                           (new_start last_edit) (new_length last_edit + 1)]
      else dq @ [mk_edit Add x 0 y 1])"

fun build_loop ::
  "point list \<Rightarrow> EditInstruction list \<Rightarrow> int \<Rightarrow> int \<Rightarrow> int \<Rightarrow> error + EditInstruction list"
where
  "build_loop [] dq x y k = Inr dq"
| "build_loop ((xn, yn) # ps) dq x y k =
     (if x = xn \<and> y = yn then build_loop ps dq x y k
      else
        let kn = xn - yn;
            (dq1, x1, y1) = (if k < kn then (push_delete dq x y, x + 1, y)
                             else (push_add dq x y, x, y + 1))
        in if x1 \<noteq> xn
           then (if xn - x1 = yn - y1
                 then build_loop ps (dq1 @ [mk_edit Nop x1 (xn - x1) y1 (yn - y1)]) xn yn kn
                 else Inl AssertionFailed)
           else build_loop ps dq1 xn yn kn)"

definition build_edit_script :: "point list \<Rightarrow> error + EditInstruction list" where
  "build_edit_script trace =
     bind_err (vec_read trace 0) (\<lambda>(x, y).
       build_loop trace [mk_edit Nop 0 0 0 0] x y (x - y))"

definition shortest_edit_script :: "'a list \<Rightarrow> 'a list \<Rightarrow> error + EditInstruction list" where
  "shortest_edit_script a b =
     bind_err (find_shortest_path a b) (\<lambda>history.
     bind_err (reconstruct_trace (int (length a)) (int (length b)) history) (\<lambda>trace.
     build_edit_script trace))"

section \<open>Rendering\<close>

text \<open>
  Output is modelled by the bytes written to \<open>std::cout\<close>, in order; \<open>std::endl\<close> is the
  newline character, \<open>\e\<close> is the escape character \<open>0x1B\<close>.
\<close>

definition endl :: string where
  "endl = [CHR 0x0A]"

definition esc :: string where
  "esc = [CHR 0x1B]"

text \<open>\<open>std::to_string\<close> on an \<open>int\<close>: decimal digits, a minus sign for negative values.\<close>

function nat_to_string :: "nat \<Rightarrow> string" where
  "nat_to_string n =
     (if n < 10 then [''0123456789'' ! n]
      else nat_to_string (n div 10) @ [''0123456789'' ! (n mod 10)])"
  by pat_completeness auto
termination
  by (relation "measure id") auto

definition to_string :: "int \<Rightarrow> string" where
  "to_string i = (if i < 0 then ''-'' @ nat_to_string (nat (- i)) else nat_to_string (nat i))"

datatype Color = Red | Green | Cyan | Default

fun to_ansi_code :: "Color \<Rightarrow> string" where
  "to_ansi_code Red = esc @ ''[31m''"
| "to_ansi_code Green = esc @ ''[32m''"
| "to_ansi_code Cyan = esc @ ''[36m''"
| "to_ansi_code Default = []"

definition color_print :: "string \<Rightarrow> Color \<Rightarrow> string" where
  "color_print s c = to_ansi_code c @ s @ esc @ ''[0m''"

subsection \<open>\<open>ModifiedRange\<close>\<close>

definition ModifiedRange :: "int \<Rightarrow> int \<Rightarrow> int \<times> int" where
  "ModifiedRange start len = (start + 1, start + len)"

definition to_str :: "int \<times> int \<Rightarrow> string" where
  "to_str rng = (case rng of (start, stop) \<Rightarrow>
     if start = stop then to_string start else to_string start @ '','' @ to_string stop)"

function range_loop :: "string list \<Rightarrow> string \<Rightarrow> Color \<Rightarrow> int \<Rightarrow> int \<Rightarrow> error + string" where
  "range_loop seq sign color i stop =
     (if i < stop then
        bind_err (vec_read seq i) (\<lambda>s.
        bind_err (range_loop seq sign color (i + 1) stop) (\<lambda>out.
        Inr (color_print (sign @ s @ endl) color @ out)))
      else Inr [])"
  by pat_completeness auto
termination
  by (relation "measure (\<lambda>(seq, sign, color, i, stop). nat (stop - i))") auto

definition range_print_modifications ::
  "int \<times> int \<Rightarrow> string list \<Rightarrow> string \<Rightarrow> Color \<Rightarrow> error + string" where
  "range_print_modifications rng seq sign color =
     (case rng of (start, stop) \<Rightarrow> range_loop seq sign color (start - 1) stop)"

subsection \<open>\<open>EditInstructionPrinter\<close>\<close>

record EditSigns =
  no_change :: string
  deleted :: string
  inserted :: string
  sep_changes :: string

definition default_signs :: EditSigns where
  "default_signs = \<lparr>no_change = '' '', deleted = ''-'', inserted = ''+'', sep_changes = []\<rparr>"

record ColorConfig =
  cc_no_change :: Color
  cc_deleted :: Color
  cc_inserted :: Color
  cc_unified_header :: Color

definition default_colors :: ColorConfig where
  "default_colors =
     \<lparr>cc_no_change = Default, cc_deleted = Red, cc_inserted = Green, cc_unified_header = Cyan\<rparr>"

record EditInstructionPrinter =
  ep_edit_signs :: EditSigns
  ep_color_config :: ColorConfig

definition get_color :: "EditInstructionPrinter \<Rightarrow> EditInstructionType \<Rightarrow> Color" where
  "get_color ep t =
     (if t = Delete then cc_deleted (ep_color_config ep)
      else if t = Add then cc_inserted (ep_color_config ep)
      else Default)"

definition print_header :: "EditInstruction \<Rightarrow> string" where
  "print_header es =
     (let header =
        (if type es = Delete
         then to_str (ModifiedRange (orig_start es) (orig_length es)) @ ''d''
              @ to_string (new_start es)
         else if type es = Add
         then to_string (orig_start es) @ ''a''
              @ to_str (ModifiedRange (new_start es) (new_length es))
         else if type es = Change
         then to_str (ModifiedRange (orig_start es) (orig_length es)) @ ''c''
              @ to_str (ModifiedRange (new_start es) (new_length es))
         else [])
      in header @ endl)"

definition print_modifications ::
  "EditInstructionPrinter \<Rightarrow> string list \<Rightarrow> string list \<Rightarrow> EditInstruction \<Rightarrow> error + string"
where
  "print_modifications ep a b es =
     (if type es = Delete
      then range_print_modifications (ModifiedRange (orig_start es) (orig_length es)) a
             (deleted (ep_edit_signs ep)) (get_color ep Delete)
      else if type es = Add
      then range_print_modifications (ModifiedRange (new_start es) (new_length es)) b
             (inserted (ep_edit_signs ep)) (get_color ep Add)
      else if type es = Change
      then
        bind_err (range_print_modifications (ModifiedRange (orig_start es) (orig_length es)) a
                    (deleted (ep_edit_signs ep)) (get_color ep Delete)) (\<lambda>out1.
        bind_err (range_print_modifications (ModifiedRange (new_start es) (new_length es)) b
                    (inserted (ep_edit_signs ep)) (get_color ep Add)) (\<lambda>out2.
        Inr (out1 @ sep_changes (ep_edit_signs ep) @ out2)))
      else Inr [])"

subsection \<open>\<open>Hunk\<close>\<close>

text \<open>The members \<open>edit_scripts_\<close>, \<open>orig_start_\<close>, \<open>orig_end_\<close>, \<open>new_start_\<close> and
  \<open>new_end_\<close> carry the prefix \<open>hunk_\<close> here.\<close>

record Hunk =
  hunk_edit_scripts :: "EditInstruction list"
  hunk_orig_start :: int
  hunk_orig_end :: int
  hunk_new_start :: int
  hunk_new_end :: int

definition new_Hunk :: "EditInstruction \<Rightarrow> Hunk" where
  "new_Hunk es =
     \<lparr>hunk_edit_scripts = [es],
      hunk_orig_start = orig_start es - 3,
      hunk_orig_end = orig_start es + orig_length es + 3,
      hunk_new_start = new_start es - 3,
      hunk_new_end = new_start es + new_length es + 3\<rparr>"

definition mergeable :: "Hunk \<Rightarrow> EditInstruction \<Rightarrow> bool" where
  "mergeable h es = (orig_start es \<le> hunk_orig_end h)"

definition add_edit_script :: "Hunk \<Rightarrow> EditInstruction \<Rightarrow> Hunk" where
  "add_edit_script h es =
     h\<lparr>hunk_edit_scripts := hunk_edit_scripts h @ [es],
       hunk_orig_end := orig_start es + orig_length es + 3,
       hunk_new_end := new_start es + new_length es + 3\<rparr>"

definition normalize_range :: "Hunk \<Rightarrow> int \<Rightarrow> int \<Rightarrow> Hunk" where
  "normalize_range h n m =
     h\<lparr>hunk_orig_start := max (hunk_orig_start h) 0,
       hunk_orig_end := min (hunk_orig_end h) n,
       hunk_new_start := max (hunk_new_start h) 0,
       hunk_new_end := min (hunk_new_end h) m\<rparr>"

definition make_header :: "Hunk \<Rightarrow> string" where
  "make_header h =
     ''@@ '' @ ''-'' @ to_string (hunk_orig_start h + 1) @ '','' @ to_string (hunk_orig_end h - hunk_orig_start h)
     @ '' '' @ ''+'' @ to_string (hunk_new_start h + 1) @ '','' @ to_string (hunk_new_end h - hunk_new_start h)
     @ '' @@'' @ endl"

text \<open>\<open>while (line < limit) { std::cout << " " << a[line] << std::endl; line++; }\<close>:
  the output and the final value of \<open>line\<close>.\<close>

function context_loop :: "string list \<Rightarrow> int \<Rightarrow> int \<Rightarrow> error + (string \<times> int)" where
  "context_loop a line limit =
     (if line < limit then
        bind_err (vec_read a line) (\<lambda>s.
        bind_err (context_loop a (line + 1) limit) (\<lambda>(out, line').
        Inr ('' '' @ s @ endl @ out, line')))
      else Inr ([], line))"
  by pat_completeness auto
termination
  by (relation "measure (\<lambda>(a, line, limit). nat (limit - line))") auto

fun hunk_loop ::
  "EditInstructionPrinter \<Rightarrow> string list \<Rightarrow> string list \<Rightarrow> EditInstruction list \<Rightarrow> int
     \<Rightarrow> error + (string \<times> int)"
where
  "hunk_loop ep a b [] line = Inr ([], line)"
| "hunk_loop ep a b (es # ess) line =
     bind_err (context_loop a line (orig_start es)) (\<lambda>(out1, line1).
     bind_err (print_modifications ep a b es) (\<lambda>out2.
     bind_err (hunk_loop ep a b ess (line1 + orig_length es)) (\<lambda>(out3, line3).
     Inr (out1 @ out2 @ out3, line3))))"

definition hunk_print_modifications :: "Hunk \<Rightarrow> string list \<Rightarrow> string list \<Rightarrow> error + string" where
  "hunk_print_modifications h0 a b =
     (let color_config = default_colors;
          ep = \<lparr>ep_edit_signs = default_signs, ep_color_config = color_config\<rparr>;
          h = normalize_range h0 (int (length a)) (int (length b))
      in bind_err (hunk_loop ep a b (hunk_edit_scripts h) (hunk_orig_start h)) (\<lambda>(out1, line).
         bind_err (context_loop a line (hunk_orig_end h)) (\<lambda>(out2, line').
         Inr (color_print (make_header h) (cc_unified_header color_config) @ out1 @ out2))))"

subsection \<open>\<open>DiffPrinter\<close>\<close>

fun normal_print :: "string list \<Rightarrow> string list \<Rightarrow> EditInstruction list \<Rightarrow> error + string" where
  "normal_print a b [] = Inr []"
| "normal_print a b (es # ess) =
     (if type es = Nop then normal_print a b ess
      else
        let ep = \<lparr>ep_edit_signs = \<lparr>no_change = '' '', deleted = ''< '', inserted = ''> '',
                                 sep_changes = ''---'' @ endl\<rparr>,
                  ep_color_config = default_colors\<rparr>
        in bind_err (print_modifications ep a b es) (\<lambda>out1.
           bind_err (normal_print a b ess) (\<lambda>out2.
           Inr (print_header es @ out1 @ out2))))"

text \<open>The first loop of \<open>unified_print\<close>: the instructions are grouped into hunks.\<close>

fun collect_hunks :: "Hunk list \<Rightarrow> EditInstruction list \<Rightarrow> Hunk list" where
  "collect_hunks hunks [] = hunks"
| "collect_hunks hunks (es # ess) =
     (if type es = Nop then collect_hunks hunks ess
      else if hunks \<noteq> [] then
        (if mergeable (last hunks) es
         then collect_hunks (butlast hunks @ [add_edit_script (last hunks) es]) ess
         else collect_hunks (hunks @ [new_Hunk es]) ess)
      else collect_hunks (hunks @ [new_Hunk es]) ess)"

fun print_hunks :: "Hunk list \<Rightarrow> string list \<Rightarrow> string list \<Rightarrow> error + string" where
  "print_hunks [] a b = Inr []"
| "print_hunks (h # hs) a b =
     bind_err (hunk_print_modifications h a b) (\<lambda>out1.
     bind_err (print_hunks hs a b) (\<lambda>out2.
     Inr (out1 @ out2)))"

definition unified_print :: "string list \<Rightarrow> string list \<Rightarrow> EditInstruction list \<Rightarrow> error + string" where
  "unified_print a b edit_script = print_hunks (collect_hunks [] edit_script) a b"

section \<open>Notions used to state the properties\<close>


subsection \<open>Applying an edit script\<close>

text \<open>
  The specification speaks of applying the \<open>Delete\<close>, \<open>Add\<close> and \<open>Change\<close> operations of a
  script to \<open>a\<close>, in order. As a patch does: with \<open>pos\<close> the number of lines of \<open>a\<close>
  consumed so far, an operation copies the lines of \<open>a\<close> from \<open>pos\<close> up to its
  \<open>orig_start\<close>, skips its \<open>orig_length\<close> lines of \<open>a\<close>, and emits its \<open>new_length\<close> lines of
  \<open>b\<close> from \<open>new_start\<close>; the lines of \<open>a\<close> left after the last operation are copied. \<open>Nop\<close>
  instructions are not operations and are skipped.
\<close>

fun apply_from :: "EditInstruction list \<Rightarrow> int \<Rightarrow> 'a list \<Rightarrow> 'a list \<Rightarrow> 'a list" where
  "apply_from [] pos a b = drop (nat pos) a"
| "apply_from (e # es) pos a b =
     (if type e = Nop then apply_from es pos a b
      else take (nat (orig_start e - pos)) (drop (nat pos) a)
           @ take (nat (new_length e)) (drop (nat (new_start e)) b)
           @ apply_from es (orig_start e + orig_length e) a b)"

definition apply_script :: "EditInstruction list \<Rightarrow> 'a list \<Rightarrow> 'a list \<Rightarrow> 'a list" where
  "apply_script es a b = apply_from es 0 a b"

subsection \<open>Shape of an edit script\<close>

text \<open>
  The lengths each kind of instruction has; instructions that follow each other without
  gap or overlap from one point \<open>(x, y)\<close> of the edit graph to another; \<open>Nop\<close> and
  non-\<open>Nop\<close> instructions taking turns; a \<open>Nop\<close> covering equal lines of \<open>a\<close> and \<open>b\<close>.
\<close>

definition wf_instr :: "EditInstruction \<Rightarrow> bool" where
  "wf_instr e =
     (case type e of
        Delete \<Rightarrow> 0 < orig_length e \<and> new_length e = 0
      | Add \<Rightarrow> orig_length e = 0 \<and> 0 < new_length e
      | Change \<Rightarrow> 0 < orig_length e \<and> 0 < new_length e
      | Nop \<Rightarrow> 0 < orig_length e \<and> new_length e = orig_length e)"

fun contiguous :: "point \<Rightarrow> EditInstruction list \<Rightarrow> point \<Rightarrow> bool" where
  "contiguous p [] q = (p = q)"
| "contiguous p (e # es) q =
     (orig_start e = fst p \<and> new_start e = snd p
      \<and> contiguous (fst p + orig_length e, snd p + new_length e) es q)"

fun alternates :: "bool list \<Rightarrow> bool" where
  "alternates (x # y # zs) = (x \<noteq> y \<and> alternates (y # zs))"
| "alternates zs = True"

definition nop_edit_alternate :: "EditInstruction list \<Rightarrow> bool" where
  "nop_edit_alternate es = alternates (map (\<lambda>e. type e = Nop) es)"

definition nop_matches :: "'a list \<Rightarrow> 'a list \<Rightarrow> EditInstruction \<Rightarrow> bool" where
  "nop_matches a b e =
     (type e \<noteq> Nop \<or>
      take (nat (orig_length e)) (drop (nat (orig_start e)) a)
        = take (nat (orig_length e)) (drop (nat (new_start e)) b))"

subsection \<open>Edit distance\<close>

text \<open>
  The shortest edit distance of the specification counts insertions and deletions: the
  elements of \<open>a\<close> and of \<open>b\<close> outside a longest common subsequence.
\<close>

fun lcs :: "'a list \<Rightarrow> 'a list \<Rightarrow> nat" where
  "lcs [] ys = 0"
| "lcs xs [] = 0"
| "lcs (x # xs) (y # ys) =
     (if x = y then Suc (lcs xs ys) else max (lcs xs (y # ys)) (lcs (x # xs) ys))"

definition edit_distance :: "'a list \<Rightarrow> 'a list \<Rightarrow> nat" where
  "edit_distance a b = length a + length b - 2 * lcs a b"

subsection \<open>Hunks by the instructions they hold\<close>

text \<open>
  The grouping of the unified output told by instructions alone, without the window a
  \<open>Hunk\<close> keeps. An instruction \<open>e\<close> joins the instruction \<open>prev\<close> before it when
  its \<open>orig_start\<close> is at most the end of \<open>prev\<close> in \<open>a\<close> plus the 3 lines of context.
  \<open>hunk_groups\<close> reads a list of instructions from left to right: an instruction that
  joins the last instruction of the open group is added to that group, any other
  instruction closes the group and opens the next. \<open>hunk_of g\<close> is the hunk of a group:
  its window starts 3 lines before the first instruction of \<open>g\<close> and ends 3 lines after
  the last.
\<close>

definition joins :: "EditInstruction \<Rightarrow> EditInstruction \<Rightarrow> bool" where
  "joins prev e = (orig_start e \<le> orig_start prev + orig_length prev + 3)"

fun groups_from :: "EditInstruction list \<Rightarrow> EditInstruction list \<Rightarrow> EditInstruction list list" where
  "groups_from g [] = [g]"
| "groups_from g (e # es) =
     (if joins (last g) e then groups_from (g @ [e]) es else g # groups_from [e] es)"

fun hunk_groups :: "EditInstruction list \<Rightarrow> EditInstruction list list" where
  "hunk_groups [] = []"
| "hunk_groups (e # es) = groups_from [e] es"

definition hunk_of :: "EditInstruction list \<Rightarrow> Hunk" where
  "hunk_of g =
     \<lparr>hunk_edit_scripts = g,
      hunk_orig_start = orig_start (hd g) - 3,
      hunk_orig_end = orig_start (last g) + orig_length (last g) + 3,
      hunk_new_start = new_start (hd g) - 3,
      hunk_new_end = new_start (last g) + new_length (last g) + 3\<rparr>"

section \<open>Auxiliary functions of the proofs\<close>

subsection \<open>The search without the buffer\<close>

text \<open>
  \<open>snake\<close> is the end of the snake that starts at \<open>(x, y)\<close>. Round \<open>d\<close> visits the
  diagonals \<open>diag d j\<close> for \<open>j = 0, ..., d\<close>; \<open>start_x prev d j\<close> is the choice the code makes
  on diagonal \<open>diag d j\<close> from the record \<open>prev\<close> of the round before, \<open>reach\<close> the value it
  stores, \<open>round_rec\<close> the whole record of the round, and \<open>rounds\<close> the records up to the
  round that reaches the end point or up to \<open>max_diff\<close>. \<open>prev_round a b d\<close> is the record
  that round \<open>d\<close> reads: \<open>[0]\<close> for the cell \<open>buf[max_diff+1]\<close> before round 0.
\<close>

function snake :: "'a list \<Rightarrow> 'a list \<Rightarrow> int \<Rightarrow> int \<Rightarrow> int" where
  "snake a b x y =
     (if 0 \<le> x \<and> 0 \<le> y \<and> x < int (length a) \<and> y < int (length b) \<and> a ! nat x = b ! nat y
      then snake a b (x + 1) (y + 1) else x)"
  by pat_completeness auto
termination
  by (relation "measure (\<lambda>(a, b, x, y). nat (int (length a) - x))") auto

definition diag :: "nat \<Rightarrow> nat \<Rightarrow> int" where
  "diag d j = 2 * int j - int d"

definition start_x :: "int list \<Rightarrow> nat \<Rightarrow> nat \<Rightarrow> int" where
  "start_x prev d j =
     (if j = 0 then prev ! 0
      else if j = d then prev ! (j - 1) + 1
      else if prev ! (j - 1) < prev ! j then prev ! j
      else prev ! (j - 1) + 1)"

definition reach :: "'a list \<Rightarrow> 'a list \<Rightarrow> int list \<Rightarrow> nat \<Rightarrow> nat \<Rightarrow> int" where
  "reach a b prev d j = snake a b (start_x prev d j) (start_x prev d j - diag d j)"

definition round_rec :: "'a list \<Rightarrow> 'a list \<Rightarrow> int list \<Rightarrow> nat \<Rightarrow> int list" where
  "round_rec a b prev d = map (reach a b prev d) [0..<Suc d]"

definition at_end :: "'a list \<Rightarrow> 'a list \<Rightarrow> nat \<Rightarrow> nat \<Rightarrow> int \<Rightarrow> bool" where
  "at_end a b d j x = (x = int (length a) \<and> x - diag d j = int (length b))"

definition hits :: "'a list \<Rightarrow> 'a list \<Rightarrow> nat \<Rightarrow> int list \<Rightarrow> bool" where
  "hits a b d v = (\<exists>j \<in> set [0..<length v]. at_end a b d j (v ! j))"

function rounds :: "'a list \<Rightarrow> 'a list \<Rightarrow> nat \<Rightarrow> int list \<Rightarrow> int list list" where
  "rounds a b d prev =
     (if int d < max_diff
      then (if hits a b d (round_rec a b prev d) then []
            else round_rec a b prev d # rounds a b (Suc d) (round_rec a b prev d))
      else [])"
  by pat_completeness auto
termination
  by (relation "measure (\<lambda>(a, b, d, prev). nat (max_diff - int d))") auto

primrec prev_round :: "'a list \<Rightarrow> 'a list \<Rightarrow> nat \<Rightarrow> int list" where
  "prev_round a b 0 = [0]"
| "prev_round a b (Suc d) = round_rec a b (prev_round a b d) d"

text \<open>The invariants of the search: what the record read by round \<open>d\<close> satisfies, and where
  the buffer holds it.\<close>

definition prev_ok :: "int list \<Rightarrow> nat \<Rightarrow> bool" where
  "prev_ok prev d =
     (if d = 0 then prev = [0]
      else length prev = d \<and> (\<forall>i<d. 0 \<le> prev ! i \<and> diag (d - 1) i \<le> prev ! i))"

definition buf_holds :: "buffer \<Rightarrow> int list \<Rightarrow> nat \<Rightarrow> bool" where
  "buf_holds buf prev d = (\<forall>i<length prev. buf (max_diff + diag d i + 1) = Some (prev ! i))"

subsection \<open>Paths in the edit graph\<close>

text \<open>
  A point is linked to the next anchor of a trace by one deletion or one insertion
  followed by a snake. \<open>ok_path a b f ps\<close>: consecutive points of \<open>ps\<close> are linked, and a
  deletion never follows an insertion that had no snake (\<open>f\<close> tells whether the first point
  was reached by such an insertion). \<open>pt a b e j\<close> is the point that round \<open>e\<close> records on
  its \<open>j\<close>-th diagonal.
\<close>

definition snake_pt :: "'a list \<Rightarrow> 'a list \<Rightarrow> point \<Rightarrow> point" where
  "snake_pt a b p = (snake a b (fst p) (snd p), snd p + (snake a b (fst p) (snd p) - fst p))"

definition del_link :: "'a list \<Rightarrow> 'a list \<Rightarrow> point \<Rightarrow> point \<Rightarrow> bool" where
  "del_link a b p q = (q = snake_pt a b (fst p + 1, snd p))"

definition ins_link :: "'a list \<Rightarrow> 'a list \<Rightarrow> point \<Rightarrow> point \<Rightarrow> bool" where
  "ins_link a b p q = (q = snake_pt a b (fst p, snd p + 1))"

fun ok_path :: "'a list \<Rightarrow> 'a list \<Rightarrow> bool \<Rightarrow> point list \<Rightarrow> bool" where
  "ok_path a b f (p # q # ps) =
     ((del_link a b p q \<and> \<not> f \<or> ins_link a b p q)
      \<and> ok_path a b (q = (fst p, snd p + 1)) (q # ps))"
| "ok_path a b f ps = True"

definition pt :: "'a list \<Rightarrow> 'a list \<Rightarrow> nat \<Rightarrow> nat \<Rightarrow> point" where
  "pt a b e j = (prev_round a b (Suc e) ! j, prev_round a b (Suc e) ! j - diag e j)"

text \<open>The invariant of the loop of \<open>build_edit_script\<close>, for a trace that starts at \<open>p0\<close> and
  has been processed up to \<open>p\<close>.\<close>

definition build_inv ::
  "'a list \<Rightarrow> 'a list \<Rightarrow> point \<Rightarrow> EditInstruction list \<Rightarrow> point \<Rightarrow> bool \<Rightarrow> bool" where
  "build_inv a b p0 dq p f =
     (\<exists>es. dq = mk_edit Nop 0 0 0 0 # es \<and> contiguous p0 es p
        \<and> (\<forall>e \<in> set es. wf_instr e \<and> nop_matches a b e)
        \<and> nop_edit_alternate dq
        \<and> (type (last dq) = Add \<or> type (last dq) = Change \<longrightarrow> f))"

text \<open>A point reached in round \<open>d\<close> comes with a common subsequence of the two prefixes it
  stands for, long enough for \<open>d\<close> edits.\<close>

definition good :: "'a list \<Rightarrow> 'a list \<Rightarrow> nat \<Rightarrow> point \<Rightarrow> bool" where
  "good a b d p =
     (\<exists>cs. subseq cs (take (nat (fst p)) a) \<and> subseq cs (take (nat (snd p)) b)
        \<and> fst p + snd p \<le> int d + 2 * int (length cs))"

section \<open>Basic facts\<close>

declare extend_snake.simps [simp del] diag_loop.simps [simp del] search_loop.simps [simp del]
declare range_loop.simps [simp del] context_loop.simps [simp del] nat_to_string.simps [simp del]

lemma max_diff_pos: "0 < max_diff"
  by (simp add: max_diff_def)

lemma bind_err_Inr [simp]: "bind_err (Inr x) f = f x"
  by (simp add: bind_err_def)

lemma bind_err_Inl [simp]: "bind_err (Inl e) f = Inl e"
  by (simp add: bind_err_def)

lemma bind_err_eq_Inr: "bind_err r f = Inr y \<longleftrightarrow> (\<exists>x. r = Inr x \<and> f x = Inr y)"
  by (cases r) simp_all

lemma vec_read_in_range: "0 \<le> i \<Longrightarrow> i < int (length v) \<Longrightarrow> vec_read v i = Inr (v ! nat i)"
  by (simp add: vec_read_def)

section \<open>The search computes \<open>rounds\<close>\<close>

declare snake.simps [simp del] rounds.simps [simp del] prev_round.simps(2) [simp del]

text \<open>From a point with non-negative coordinates the loop of the snake reads \<open>a\<close> and \<open>b\<close>
  inside their bounds and ends at \<open>snake a b x y\<close>.\<close>

lemma extend_snake_eq:
  "0 \<le> x \<Longrightarrow> 0 \<le> y \<Longrightarrow> extend_snake a b x y = Inr (snake a b x y, y + (snake a b x y - x))"
proof (induction a b x y rule: snake.induct)
  case (1 a b x y)
  show ?case
  proof (cases "x < int (length a) \<and> y < int (length b) \<and> a ! nat x = b ! nat y")
    case True
    then have "extend_snake a b (x + 1) (y + 1)
               = Inr (snake a b (x + 1) (y + 1), (y + 1) + (snake a b (x + 1) (y + 1) - (x + 1)))"
      using "1.IH" "1.prems" by simp
    moreover have "snake a b x y = snake a b (x + 1) (y + 1)"
      using True "1.prems" by (subst snake.simps) simp
    ultimately show ?thesis
      using True "1.prems" by (subst extend_snake.simps) (simp add: vec_read_in_range)
  next
    case False
    then have "snake a b x y = x"
      by (subst snake.simps) auto
    then show ?thesis
      using False "1.prems" by (subst extend_snake.simps) (auto simp: vec_read_in_range)
  qed
qed

lemma snake_ge: "x \<le> snake a b x y"
proof (induction a b x y rule: snake.induct)
  case (1 a b x y)
  then show ?case by (subst snake.simps) force
qed

lemma snake_le: "x \<le> int (length a) \<Longrightarrow> snake a b x y \<le> int (length a)"
proof (induction a b x y rule: snake.induct)
  case (1 a b x y)
  then show ?case by (subst snake.simps) force
qed

lemma snake_le2: "y \<le> int (length b) \<Longrightarrow> y + (snake a b x y - x) \<le> int (length b)"
proof (induction a b x y rule: snake.induct)
  case (1 a b x y)
  then show ?case by (subst snake.simps) force
qed

lemma snake_match:
  "0 \<le> i \<Longrightarrow> i < snake a b x y - x \<Longrightarrow> a ! nat (x + i) = b ! nat (y + i)"
proof (induction a b x y arbitrary: i rule: snake.induct)
  case (1 a b x y)
  show ?case
  proof (cases "0 \<le> x \<and> 0 \<le> y \<and> x < int (length a) \<and> y < int (length b) \<and> a ! nat x = b ! nat y")
    case True
    then have eq: "snake a b x y = snake a b (x + 1) (y + 1)"
      by (subst snake.simps) simp
    show ?thesis
    proof (cases "i = 0")
      case True
      with \<open>0 \<le> x \<and> _\<close> show ?thesis by simp
    next
      case False
      then have "0 \<le> i - 1" "i - 1 < snake a b (x + 1) (y + 1) - (x + 1)"
        using "1.prems" eq by auto
      from "1.IH" [OF True this] show ?thesis by (simp add: algebra_simps)
    qed
  next
    case False
    then have "snake a b x y = x"
      by (subst snake.simps) auto
    with "1.prems" show ?thesis by simp
  qed
qed

lemma prev_ok_nonempty: "prev_ok prev d \<Longrightarrow> 0 < length prev"
  by (auto simp: prev_ok_def split: if_splits)

text \<open>In round \<open>d\<close>, on diagonal \<open>diag d j\<close>, every cell of the buffer that is read lies in
  the array and holds a value of the round before.\<close>

lemma select_prev_eq:
  assumes "int d < max_diff" "prev_ok prev d" "buf_holds buf prev d" "j \<le> d"
  shows "select_prev buf (int d) (diag d j) = Inr (start_x prev d j)"
proof -
  have rd: "buf_read buf (max_diff + diag d i + 1) = Inr (prev ! i)" if "i < length prev" "i \<le> d" for i
    using that assms(1,3) by (auto simp: buf_read_def buf_holds_def diag_def)
  show ?thesis
  proof (cases "j = 0")
    case True
    then show ?thesis
      using rd [of 0] prev_ok_nonempty [OF assms(2)]
      by (simp add: select_prev_def start_x_def diag_def)
  next
    case False
    then have len: "length prev = d" and j1: "j - 1 < length prev" "j - 1 \<le> d"
      using assms(2,4) by (auto simp: prev_ok_def split: if_splits)
    have r1: "buf_read buf (max_diff + diag d j - 1) = Inr (prev ! (j - 1))"
    proof -
      have eq: "max_diff + diag d j - 1 = max_diff + diag d (j - 1) + 1"
        using False by (simp add: diag_def)
      show ?thesis unfolding eq using rd [OF j1] .
    qed
    have neq: "diag d j \<noteq> - int d"
      using False by (simp add: diag_def)
    show ?thesis
    proof (cases "j = d")
      case True
      then have "diag d j = int d" by (simp add: diag_def)
      then show ?thesis
        using False True neq r1 unfolding select_prev_def start_x_def by simp
    next
      case ne: False
      then have "j < length prev" using len assms(4) by simp
      then have r2: "buf_read buf (max_diff + diag d j + 1) = Inr (prev ! j)"
        using rd assms(4) by simp
      have "diag d j \<noteq> int d"
        using ne by (simp add: diag_def)
      then show ?thesis
        using False ne neq unfolding select_prev_def start_x_def by (simp add: r1 r2)
    qed
  qed
qed

lemma start_x_bounds:
  assumes "prev_ok prev d" "j \<le> d"
  shows "0 \<le> start_x prev d j \<and> diag d j \<le> start_x prev d j"
proof (cases "d = 0")
  case True
  then show ?thesis using assms by (simp add: prev_ok_def start_x_def diag_def)
next
  case False
  then have ok: "\<And>i. i < d \<Longrightarrow> 0 \<le> prev ! i \<and> diag (d - 1) i \<le> prev ! i"
    using assms(1) by (simp add: prev_ok_def)
  show ?thesis
  proof (cases "j = 0")
    case True
    then show ?thesis using ok [of 0] False by (simp add: start_x_def diag_def)
  next
    case j0: False
    then have a1: "0 \<le> prev ! (j - 1)" "diag (d - 1) (j - 1) \<le> prev ! (j - 1)"
      using ok [of "j - 1"] assms(2) by auto
    show ?thesis
    proof (cases "j = d")
      case True
      then show ?thesis
        using j0 a1 False by (auto simp: start_x_def diag_def)
    next
      case ne: False
      then have "0 \<le> prev ! j" "diag (d - 1) j \<le> prev ! j"
        using ok [of j] assms(2) by auto
      then show ?thesis
        using j0 ne a1 False by (auto simp: start_x_def diag_def)
    qed
  qed
qed

lemma reach_bounds:
  assumes "prev_ok prev d" "j \<le> d"
  shows "0 \<le> reach a b prev d j \<and> diag d j \<le> reach a b prev d j"
  using start_x_bounds [OF assms] snake_ge [of "start_x prev d j" a b "start_x prev d j - diag d j"]
  by (simp add: reach_def)

lemma prev_ok_round: "prev_ok prev d \<Longrightarrow> prev_ok (round_rec a b prev d) (Suc d)"
  using reach_bounds [of prev d _ a b] by (simp add: prev_ok_def round_rec_def del: upt_Suc)

lemma diag_Suc: "diag d (Suc j) = diag d j + 2"
  by (simp add: diag_def)

text \<open>
  One round. Started on diagonal \<open>diag d j\<close> with the first \<open>j\<close> values of the record in \<open>v\<close>,
  the loop over the diagonals either returns at a diagonal that reaches the end point
  or completes the record of the round and leaves it in the buffer for the next round.
\<close>

lemma diag_loop_round:
  assumes "int d < max_diff" "prev_ok prev d" "buf_holds buf prev d" "j \<le> Suc d"
    and "\<forall>i<j. buf (max_diff + diag d i) = Some (reach a b prev d i)"
  shows "if (\<exists>i. j \<le> i \<and> i \<le> d \<and> at_end a b d i (reach a b prev d i))
         then (\<exists>buf' v'. diag_loop a b (int d) (diag d j) buf (map (reach a b prev d) [0..<j])
                 = Inr (True, buf', v'))
         else (\<exists>buf'. diag_loop a b (int d) (diag d j) buf (map (reach a b prev d) [0..<j])
                 = Inr (False, buf', round_rec a b prev d)
               \<and> buf_holds buf' (round_rec a b prev d) (Suc d))"
  using assms
proof (induction "Suc d - j" arbitrary: j buf)
  case 0
  then have j: "j = Suc d" by simp
  have "\<not> diag d j \<le> int d" using j by (simp add: diag_def)
  then have "diag_loop a b (int d) (diag d j) buf (map (reach a b prev d) [0..<j])
             = Inr (False, buf, round_rec a b prev d)"
    unfolding j round_rec_def by (subst diag_loop.simps) simp
  moreover have "buf_holds buf (round_rec a b prev d) (Suc d)"
    using "0.prems"(5) j unfolding buf_holds_def round_rec_def
    by (simp add: diag_def del: upt_Suc)
  moreover have "\<not> (\<exists>i. j \<le> i \<and> i \<le> d \<and> at_end a b d i (reach a b prev d i))"
    using j by auto
  ultimately show ?case by simp
next
  case (Suc c)
  then have jd: "j \<le> d" by simp
  let ?s = "start_x prev d j"
  let ?r = "reach a b prev d j"
  let ?buf = "buf(max_diff + diag d j \<mapsto> ?r)"
  let ?v = "map (reach a b prev d) [0..<j]"
  have k: "diag d j \<le> int d" using jd by (simp add: diag_def)
  have sel: "select_prev buf (int d) (diag d j) = Inr ?s"
    using select_prev_eq [OF Suc.prems(1,2,3) jd] .
  have sb: "0 \<le> ?s" "0 \<le> ?s - diag d j"
    using start_x_bounds [OF Suc.prems(2) jd] by auto
  have ext: "extend_snake a b ?s (?s - diag d j) = Inr (?r, ?r - diag d j)"
    using extend_snake_eq [OF sb] by (simp add: reach_def)
  have wr: "buf_write buf (max_diff + diag d j) ?r = Inr ?buf"
    using Suc.prems(1) jd by (simp add: buf_write_def diag_def)
  have unfold: "diag_loop a b (int d) (diag d j) buf ?v =
        (if at_end a b d j ?r then Inr (True, ?buf, ?v @ [?r])
         else diag_loop a b (int d) (diag d (Suc j)) ?buf (map (reach a b prev d) [0..<Suc j]))"
    using k by (subst diag_loop.simps) (simp add: sel ext wr at_end_def diag_Suc)
  show ?case
  proof (cases "at_end a b d j ?r")
    case True
    then show ?thesis using unfold jd by auto
  next
    case False
    have c: "c = Suc d - Suc j" using Suc.hyps(2) by simp
    have h1: "buf_holds ?buf prev d"
      using Suc.prems(3) unfolding buf_holds_def diag_def
      by (auto simp: fun_upd_def) presburger
    have h2: "\<forall>i<Suc j. ?buf (max_diff + diag d i) = Some (reach a b prev d i)"
      using Suc.prems(5) by (auto simp: less_Suc_eq diag_def)
    have "Suc j \<le> Suc d" using jd by simp
    note IH = Suc.hyps(1) [OF c Suc.prems(1,2) h1 this h2]
    have iff: "(\<exists>i. j \<le> i \<and> i \<le> d \<and> at_end a b d i (reach a b prev d i))
          \<longleftrightarrow> (\<exists>i. Suc j \<le> i \<and> i \<le> d \<and> at_end a b d i (reach a b prev d i))"
      using False by (metis Suc_leI le_neq_implies_less Suc_leD)
    have eq: "diag_loop a b (int d) (diag d j) buf ?v
              = diag_loop a b (int d) (diag d (Suc j)) ?buf (map (reach a b prev d) [0..<Suc j])"
      unfolding unfold using False by (simp del: upt_Suc)
    show ?thesis unfolding eq iff by (rule IH)
  qed
qed

lemma hits_round_rec:
  "hits a b d (round_rec a b prev d) \<longleftrightarrow> (\<exists>i. 0 \<le> i \<and> i \<le> d \<and> at_end a b d i (reach a b prev d i))"
  unfolding hits_def round_rec_def
  by (auto simp: less_Suc_eq_le simp del: upt_Suc)

lemma search_loop_rounds:
  assumes "prev_ok prev d" "buf_holds buf prev d"
  shows "search_loop a b d buf h = Inr (h @ rounds a b d prev)"
  using assms
proof (induction "nat (max_diff - int d)" arbitrary: d buf prev h)
  case 0
  then have "\<not> int d < max_diff" by simp
  then show ?case
    by (subst search_loop.simps, subst rounds.simps) simp
next
  case (Suc c)
  then have lt: "int d < max_diff" by linarith
  let ?R = "round_rec a b prev d"
  have d0: "diag d 0 = - int d" by (simp add: diag_def)
  note L = diag_loop_round [OF lt Suc.prems(1,2), of 0 a b, unfolded d0, simplified]
  show ?case
  proof (cases "hits a b d ?R")
    case True
    then obtain buf' v' where "diag_loop a b (int d) (- int d) buf [] = Inr (True, buf', v')"
      using L unfolding hits_round_rec by (auto split: if_splits)
    then show ?thesis
      using lt True by (subst search_loop.simps, subst rounds.simps) simp
  next
    case False
    then obtain buf' where dl: "diag_loop a b (int d) (- int d) buf [] = Inr (False, buf', ?R)"
      and bh: "buf_holds buf' ?R (Suc d)"
      using L unfolding hits_round_rec by (auto split: if_splits)
    have c: "c = nat (max_diff - int (Suc d))" using Suc.hyps(2) by simp
    have "search_loop a b (Suc d) buf' (h @ [?R]) = Inr ((h @ [?R]) @ rounds a b (Suc d) ?R)"
      using Suc.hyps(1) [OF c prev_ok_round [OF Suc.prems(1)] bh] .
    then show ?thesis
      using lt False dl by (subst search_loop.simps, subst rounds.simps) simp
  qed
qed

text \<open>The search never fails, and its history is \<open>rounds\<close>.\<close>

lemma find_shortest_path_rounds: "find_shortest_path a b = Inr (rounds a b 0 [0])"
proof -
  have "prev_ok [0] 0" by (simp add: prev_ok_def)
  moreover have "buf_holds (Map.empty(max_diff + 1 \<mapsto> 0)) [0] 0"
    by (simp add: buf_holds_def diag_def)
  ultimately show ?thesis
    unfolding find_shortest_path_def using search_loop_rounds [of "[0]" 0 _ a b "[]"] by simp
qed

section \<open>The trace of a search that ended\<close>

lemma prev_ok_prev_round: "prev_ok (prev_round a b d) d"
  by (induction d) (simp_all add: prev_ok_def [of "[0]" 0] prev_ok_round prev_round.simps(2))

lemma length_prev_round_Suc: "length (prev_round a b (Suc d)) = Suc d"
  by (simp add: prev_round.simps(2) round_rec_def del: upt_Suc)

lemma prev_round_Suc_nth:
  "j \<le> d \<Longrightarrow> prev_round a b (Suc d) ! j = reach a b (prev_round a b d) d j"
  by (simp add: prev_round.simps(2) round_rec_def less_Suc_eq_le del: upt_Suc)

lemma rounds_prev:
  "rounds a b d (prev_round a b d) =
     (if int d < max_diff
      then (if hits a b d (prev_round a b (Suc d)) then []
            else prev_round a b (Suc d) # rounds a b (Suc d) (prev_round a b (Suc d)))
      else [])"
  by (subst rounds.simps) (simp add: prev_round.simps(2))

lemma rounds_struct:
  assumes "e < length (rounds a b d (prev_round a b d))"
  shows "rounds a b d (prev_round a b d) ! e = prev_round a b (Suc (d + e))
         \<and> int (d + e) < max_diff
         \<and> \<not> hits a b (d + e) (prev_round a b (Suc (d + e)))"
  using assms
proof (induction e arbitrary: d)
  case 0
  then show ?case
    by (subst (asm) rounds_prev, subst rounds_prev) (auto split: if_splits)
next
  case (Suc e)
  from Suc.prems have lt: "int d < max_diff" and nh: "\<not> hits a b d (prev_round a b (Suc d))"
    by (subst (asm) rounds_prev; auto split: if_splits)+
  then have eq: "rounds a b d (prev_round a b d)
                 = prev_round a b (Suc d) # rounds a b (Suc d) (prev_round a b (Suc d))"
    by (subst rounds_prev) simp
  with Suc.prems have "e < length (rounds a b (Suc d) (prev_round a b (Suc d)))" by simp
  from Suc.IH [OF this] show ?case unfolding eq by simp
qed

lemma rounds_converged:
  assumes "int (d + length (rounds a b d (prev_round a b d))) < max_diff"
  shows "hits a b (d + length (rounds a b d (prev_round a b d)))
           (prev_round a b (Suc (d + length (rounds a b d (prev_round a b d)))))"
  using assms
proof (induction "nat (max_diff - int d)" arbitrary: d)
  case 0
  then show ?case by simp
next
  case (Suc c)
  then have lt: "int d < max_diff" by linarith
  show ?case
  proof (cases "hits a b d (prev_round a b (Suc d))")
    case True
    then have "rounds a b d (prev_round a b d) = []"
      using lt by (subst rounds_prev) simp
    then show ?thesis using True by simp
  next
    case False
    then have eq: "rounds a b d (prev_round a b d)
                   = prev_round a b (Suc d) # rounds a b (Suc d) (prev_round a b (Suc d))"
      using lt by (subst rounds_prev) simp
    have c: "c = nat (max_diff - int (Suc d))" using Suc.hyps(2) by simp
    have "int (Suc d + length (rounds a b (Suc d) (prev_round a b (Suc d)))) < max_diff"
      using Suc.prems unfolding eq by simp
    from Suc.hyps(1) [OF c this] show ?thesis unfolding eq by simp
  qed
qed

lemma c_div_even: "c_div (2 * z) 2 = z"
  by (simp add: c_div_def sgn_mult abs_mult mult_sgn_abs)

lemma ok_path_snoc:
  assumes "ok_path a b f (ps @ [p])"
    and "del_link a b p q \<and> \<not> (if ps = [] then f else p = (fst (last ps), snd (last ps) + 1))
         \<or> ins_link a b p q"
  shows "ok_path a b f (ps @ [p, q])"
  using assms
proof (induction ps arbitrary: f)
  case Nil
  then show ?case by simp
next
  case (Cons r ps)
  show ?case
  proof (cases ps)
    case Nil
    with Cons.prems show ?thesis by simp
  next
    case (Cons r' ps')
    with Cons.prems Cons.IH [of "r' = (fst r, snd r + 1)"] show ?thesis by simp
  qed
qed

lemma start_x_ge_left: "0 < i \<Longrightarrow> prev ! (i - 1) + 1 \<le> start_x prev d i"
  by (simp add: start_x_def)

text \<open>
  One step of the backward loop, from the \<open>j\<close>-th diagonal of round \<open>d + 1\<close>. If it
  returns at all, \<open>j \<le> d\<close> (for \<open>j = d + 1\<close> the read of \<open>v[idx+1]\<close> is out of range), and
  the step moves to the diagonal the forward search came from.
\<close>

lemma trace_step:
  assumes H: "H ! d = prev_round a b (Suc d)" and j: "j \<le> Suc d" and mx: "0 \<le> max_n"
    and res: "trace_loop max_n H (Suc d) (diag (Suc d) j) trace = Inr tr"
  shows "\<exists>j'. j' \<le> d \<and>
           trace_loop max_n H d (diag d j')
             (trace @ [(prev_round a b (Suc d) ! j', prev_round a b (Suc d) ! j' - diag d j')]) = Inr tr
           \<and> (j' = j \<and> start_x (prev_round a b (Suc d)) (Suc d) j = prev_round a b (Suc d) ! j
              \<or> Suc j' = j \<and> j \<le> d
                \<and> start_x (prev_round a b (Suc d)) (Suc d) j = prev_round a b (Suc d) ! j' + 1
                \<and> prev_round a b (Suc d) ! j \<le> prev_round a b (Suc d) ! j')"
proof -
  define v where "v = prev_round a b (Suc d)"
  have len: "length v = Suc d" unfolding v_def by (rule length_prev_round_Suc)
  have idx: "c_div ((diag (Suc d) j - 1) + int d) 2 = int j - 1"
    using c_div_even [of "int j - 1"] by (simp add: diag_def algebra_simps)
  have nn: "0 \<le> v ! i" if "i \<le> d" for i
    using reach_bounds [OF prev_ok_prev_round that, of a b a b] prev_round_Suc_nth [OF that, of a b]
    unfolding v_def by simp
  have km: "diag (Suc d) j - 1 = diag d (j - 1)" if "0 < j"
    using that by (simp add: diag_def)
  have kp: "diag (Suc d) j + 1 = diag d j"
    by (simp add: diag_def)
  have unf: "bind_err (if int j - 1 < 0 then Inr (- (max_n + 1)) else vec_read v (int j - 1)) (\<lambda>x1.
             bind_err (if int j - 1 > int d then Inr (- (max_n + 1)) else vec_read v (int j - 1 + 1)) (\<lambda>x2.
             if x1 + 1 > x2
             then trace_loop max_n H d (diag (Suc d) j - 1) (trace @ [(x1, x1 - (diag (Suc d) j - 1))])
             else trace_loop max_n H d (diag (Suc d) j + 1) (trace @ [(x2, x2 - (diag (Suc d) j + 1))])))
             = Inr tr"
    using res unfolding trace_loop.simps H v_def [symmetric] Let_def idx
    by (simp only: len if_False simp_thms add.commute [of d 1] plus_1_eq_Suc)
  have concl: "\<exists>j'. j' \<le> d \<and>
           trace_loop max_n H d (diag d j') (trace @ [(v ! j', v ! j' - diag d j')]) = Inr tr
           \<and> (j' = j \<and> start_x v (Suc d) j = v ! j
              \<or> Suc j' = j \<and> j \<le> d \<and> start_x v (Suc d) j = v ! j' + 1 \<and> v ! j \<le> v ! j')"
  proof (cases "j = 0")
    case True
    have "\<not> - (max_n + 1) + 1 > v ! 0" using nn [of 0] mx by simp
    then have "trace_loop max_n H d (diag d 0) (trace @ [(v ! 0, v ! 0 - diag d 0)]) = Inr tr"
      using unf True kp by (simp add: len vec_read_def)
    moreover have "start_x v (Suc d) 0 = v ! 0" by (simp add: start_x_def)
    ultimately show ?thesis using True by auto
  next
    case False
    then have j0: "0 < j" by simp
    have jd: "j \<le> d"
    proof (rule ccontr)
      assume "\<not> j \<le> d"
      then have "j = Suc d" using j by simp
      then show False
        using unf by (simp add: len vec_read_def)
    qed
    have r1: "vec_read v (int j - 1) = Inr (v ! (j - 1))"
      using j0 jd by (simp add: vec_read_def len nat_diff_distrib)
    have r2: "vec_read v (int j - 1 + 1) = Inr (v ! j)"
      using jd by (simp add: vec_read_def len)
    note unf' = unf [unfolded r1 r2 km [OF j0] kp]
    show ?thesis
    proof (cases "v ! (j - 1) + 1 > v ! j")
      case True
      then have "start_x v (Suc d) j = v ! (j - 1) + 1"
        using j0 jd by (simp add: start_x_def)
      moreover have "trace_loop max_n H d (diag d (j - 1))
                       (trace @ [(v ! (j - 1), v ! (j - 1) - diag d (j - 1))]) = Inr tr"
        using unf' True j0 jd by simp
      ultimately show ?thesis using True j0 jd
        by (intro exI [of _ "j - 1"]) simp
    next
      case False
      then have "start_x v (Suc d) j = v ! j"
        using j0 jd by (simp add: start_x_def)
      moreover have "trace_loop max_n H d (diag d j) (trace @ [(v ! j, v ! j - diag d j)]) = Inr tr"
        using unf' False j0 jd by simp
      ultimately show ?thesis using jd
        by (intro exI [of _ j]) simp
    qed
  qed
  then show ?thesis unfolding v_def .
qed

lemma pt_nonneg: "j \<le> e \<Longrightarrow> 0 \<le> fst (pt a b e j) \<and> 0 \<le> snd (pt a b e j)"
  using reach_bounds [OF prev_ok_prev_round, of j e a b a b] prev_round_Suc_nth [of j e a b]
  by (simp add: pt_def)

lemma pt_0: "pt a b 0 0 = (snake a b 0 0, snake a b 0 0)"
  by (simp add: pt_def prev_round.simps(2) round_rec_def reach_def start_x_def diag_def)

lemma pt_ins:
  assumes "j \<le> d" "start_x (prev_round a b (Suc d)) (Suc d) j = prev_round a b (Suc d) ! j"
  shows "ins_link a b (pt a b d j) (pt a b (Suc d) j)"
proof -
  have "prev_round a b (Suc (Suc d)) ! j = reach a b (prev_round a b (Suc d)) (Suc d) j"
    using assms(1) by (intro prev_round_Suc_nth) simp
  moreover have "diag (Suc d) j = diag d j - 1" by (simp add: diag_def)
  ultimately show ?thesis
    unfolding ins_link_def pt_def snake_pt_def reach_def assms(2)
    by (simp add: algebra_simps)
qed

lemma pt_del:
  assumes "j \<le> d" "start_x (prev_round a b (Suc d)) (Suc d) (Suc j) = prev_round a b (Suc d) ! j + 1"
  shows "del_link a b (pt a b d j) (pt a b (Suc d) (Suc j))"
proof -
  have "prev_round a b (Suc (Suc d)) ! Suc j = reach a b (prev_round a b (Suc d)) (Suc d) (Suc j)"
    using assms(1) by (intro prev_round_Suc_nth) simp
  moreover have "diag (Suc d) (Suc j) = diag d j + 1" by (simp add: diag_def)
  ultimately show ?thesis
    unfolding del_link_def pt_def snake_pt_def reach_def assms(2)
    by (simp add: algebra_simps)
qed

lemma pt_right_gt:
  assumes "j \<le> d"
  shows "prev_round a b (Suc d) ! j < prev_round a b (Suc (Suc d)) ! Suc j"
proof -
  have "prev_round a b (Suc (Suc d)) ! Suc j = reach a b (prev_round a b (Suc d)) (Suc d) (Suc j)"
    using assms by (intro prev_round_Suc_nth) simp
  moreover have "prev_round a b (Suc d) ! j + 1 \<le> start_x (prev_round a b (Suc d)) (Suc d) (Suc j)"
    using start_x_ge_left [of "Suc j"] by simp
  ultimately show ?thesis
    using snake_ge [of "start_x (prev_round a b (Suc d)) (Suc d) (Suc j)" a b]
    unfolding reach_def by (smt (verit))
qed

text \<open>The points pushed by the backward loop, read in reverse, form a path from the end
  of the first snake to the current point.\<close>

lemma trace_loop_path:
  assumes "\<forall>d<e. H ! d = prev_round a b (Suc d)" "j \<le> e" "0 \<le> max_n"
    and "trace_loop max_n H e (diag e j) trace = Inr tr"
    and "da \<longrightarrow> Suc j \<le> e \<and> prev_round a b (Suc e) ! Suc j \<le> prev_round a b (Suc e) ! j"
  shows "\<exists>more. tr = trace @ more
           \<and> ok_path a b False (rev more @ [pt a b e j])
           \<and> hd (rev more @ [pt a b e j]) = (snake a b 0 0, snake a b 0 0)
           \<and> (da \<longrightarrow> more \<noteq> [] \<longrightarrow> pt a b e j \<noteq> (fst (hd more), snd (hd more) + 1))
           \<and> (\<forall>p \<in> set more. 0 \<le> fst p \<and> 0 \<le> snd p)"
  using assms
proof (induction e arbitrary: j trace da)
  case 0
  then show ?case by (simp add: pt_0)
next
  case (Suc d)
  have Hd: "H ! d = prev_round a b (Suc d)" using Suc.prems(1) by simp
  from trace_step [OF Hd Suc.prems(2,3,4)] obtain j' where j': "j' \<le> d"
    and tl: "trace_loop max_n H d (diag d j') (trace @ [pt a b d j']) = Inr tr"
    and alt: "j' = j \<and> start_x (prev_round a b (Suc d)) (Suc d) j = prev_round a b (Suc d) ! j
              \<or> Suc j' = j \<and> j \<le> d
                \<and> start_x (prev_round a b (Suc d)) (Suc d) j = prev_round a b (Suc d) ! j' + 1
                \<and> prev_round a b (Suc d) ! j \<le> prev_round a b (Suc d) ! j'"
    unfolding pt_def by blast
  have Hs: "\<forall>d'<d. H ! d' = prev_round a b (Suc d')" using Suc.prems(1) by simp
  have flag: "Suc j' = j \<longrightarrow> Suc j' \<le> d \<and> prev_round a b (Suc d) ! Suc j' \<le> prev_round a b (Suc d) ! j'"
    using alt by auto
  from Suc.IH [OF Hs j' Suc.prems(3) tl flag] obtain more where
    tr: "tr = (trace @ [pt a b d j']) @ more"
    and ok: "ok_path a b False (rev more @ [pt a b d j'])"
    and hd: "hd (rev more @ [pt a b d j']) = (snake a b 0 0, snake a b 0 0)"
    and nd: "Suc j' = j \<longrightarrow> more \<noteq> [] \<longrightarrow> pt a b d j' \<noteq> (fst (hd more), snd (hd more) + 1)"
    and nn: "\<forall>p \<in> set more. 0 \<le> fst p \<and> 0 \<le> snd p"
    by blast
  have link: "del_link a b (pt a b d j') (pt a b (Suc d) j)
              \<and> \<not> (if rev more = [] then False
                     else pt a b d j' = (fst (last (rev more)), snd (last (rev more)) + 1))
              \<or> ins_link a b (pt a b d j') (pt a b (Suc d) j)"
  proof (cases "j' = j")
    case True
    then show ?thesis using alt pt_ins [OF j'] by auto
  next
    case False
    then have sj: "Suc j' = j" using alt by auto
    then have "del_link a b (pt a b d j') (pt a b (Suc d) j)"
      using alt pt_del [OF j'] by auto
    then show ?thesis using nd sj by (simp add: last_rev)
  qed
  have ok': "ok_path a b False (rev (pt a b d j' # more) @ [pt a b (Suc d) j])"
    using ok_path_snoc [OF ok link] by simp
  have hd': "hd (rev (pt a b d j' # more) @ [pt a b (Suc d) j]) = (snake a b 0 0, snake a b 0 0)"
  proof -
    have ne: "rev more @ [pt a b d j'] \<noteq> []" by simp
    have "hd ((rev more @ [pt a b d j']) @ [pt a b (Suc d) j]) = hd (rev more @ [pt a b d j'])"
      by (rule hd_append2 [OF ne])
    then show ?thesis using hd by simp
  qed
  have nd': "da \<longrightarrow> pt a b (Suc d) j \<noteq> (fst (pt a b d j'), snd (pt a b d j') + 1)"
  proof (intro impI notI)
    assume da and eq: "pt a b (Suc d) j = (fst (pt a b d j'), snd (pt a b d j') + 1)"
    then have le: "Suc j \<le> Suc d"
      "prev_round a b (Suc (Suc d)) ! Suc j \<le> prev_round a b (Suc (Suc d)) ! j"
      using Suc.prems(5) by auto
    from eq have x: "prev_round a b (Suc (Suc d)) ! j = prev_round a b (Suc d) ! j'"
      and y: "diag (Suc d) j = diag d j' - 1"
      by (auto simp: pt_def)
    from y have "j' = j" by (simp add: diag_def)
    with x le pt_right_gt [of j d a b] show False by simp
  qed
  have nn': "\<forall>p \<in> set (pt a b d j' # more). 0 \<le> fst p \<and> 0 \<le> snd p"
    using nn pt_nonneg [OF j'] by simp
  show ?case
    using tr ok' hd' nd' nn' by (intro exI [of _ "pt a b d j' # more"]) simp
qed

section \<open>The script built from a trace\<close>

lemma contiguous_snoc:
  "contiguous p (es @ [e]) q \<longleftrightarrow>
     (\<exists>r. contiguous p es r \<and> orig_start e = fst r \<and> new_start e = snd r
        \<and> q = (fst r + orig_length e, snd r + new_length e))"
  by (induction es arbitrary: p) auto

lemma alternates_snoc:
  "alternates (bs @ [c]) \<longleftrightarrow> alternates bs \<and> (bs = [] \<or> last bs \<noteq> c)"
  by (induction bs rule: alternates.induct) auto

lemma snake_segment:
  assumes "0 \<le> x" "0 \<le> y"
  shows "take (nat (snake a b x y - x)) (drop (nat x) a)
         = take (nat (snake a b x y - x)) (drop (nat y) b)"
proof (cases "snake a b x y = x")
  case True
  then show ?thesis by simp
next
  case False
  then have ext: "x < int (length a) \<and> y < int (length b)"
    by (subst (asm) snake.simps) (auto split: if_splits)
  let ?l = "nat (snake a b x y - x)"
  have la: "nat x + ?l \<le> length a"
    using snake_le [of x a b y] ext assms snake_ge [of x a b y] by linarith
  have lb: "nat y + ?l \<le> length b"
    using snake_le2 [of y b a x] ext assms snake_ge [of x a b y] by linarith
  show ?thesis
  proof (rule nth_equalityI)
    show "length (take ?l (drop (nat x) a)) = length (take ?l (drop (nat y) b))"
      using la lb by simp
  next
    fix i assume "i < length (take ?l (drop (nat x) a))"
    then have i: "i < ?l" by simp
    then have "a ! nat (x + int i) = b ! nat (y + int i)"
      by (intro snake_match) auto
    moreover have "nat (x + int i) = nat x + i" "nat (y + int i) = nat y + i"
      using assms by (simp_all add: nat_add_distrib)
    ultimately show "take ?l (drop (nat x) a) ! i = take ?l (drop (nat y) b) ! i"
      using i la lb by simp
  qed
qed

lemma build_loop_del:
  assumes "x - y < xn - yn" "k = x - y"
  shows "build_loop ((xn, yn) # ps) dq x y k =
     (if x + 1 \<noteq> xn
      then (if xn - (x + 1) = yn - y
            then build_loop ps (push_delete dq x y @ [mk_edit Nop (x + 1) (xn - (x + 1)) y (yn - y)])
                   xn yn (xn - yn)
            else Inl AssertionFailed)
      else build_loop ps (push_delete dq x y) xn yn (xn - yn))"
  using assms by auto

lemma build_loop_add:
  assumes "xn - yn < x - y" "k = x - y"
  shows "build_loop ((xn, yn) # ps) dq x y k =
     (if x \<noteq> xn
      then (if xn - x = yn - (y + 1)
            then build_loop ps (push_add dq x y @ [mk_edit Nop x (xn - x) (y + 1) (yn - (y + 1))])
                   xn yn (xn - yn)
            else Inl AssertionFailed)
      else build_loop ps (push_add dq x y) xn yn (xn - yn))"
  using assms by auto

lemma mk_edit_sel [simp]:
  "type (mk_edit t os ol ns nl) = t" "orig_start (mk_edit t os ol ns nl) = os"
  "orig_length (mk_edit t os ol ns nl) = ol" "new_start (mk_edit t os ol ns nl) = ns"
  "new_length (mk_edit t os ol ns nl) = nl"
  by (simp_all add: mk_edit_def)

lemma build_inv_last_edit:
  assumes "build_inv a b p0 dq p f" "type (last dq) \<noteq> Nop"
  obtains es0 e where "dq = mk_edit Nop 0 0 0 0 # es0 @ [e]" "last dq = e"
    "butlast dq = mk_edit Nop 0 0 0 0 # es0"
proof -
  from assms(1) obtain es where dq: "dq = mk_edit Nop 0 0 0 0 # es"
    unfolding build_inv_def by blast
  with assms(2) have "es \<noteq> []" by auto
  then obtain es0 e where "es = es0 @ [e]" by (metis rev_exhaust)
  with dq that show thesis by simp
qed

lemma build_inv_replace_last:
  assumes inv: "build_inv a b p0 (mk_edit Nop 0 0 0 0 # es0 @ [e]) p f"
    and "type e \<noteq> Nop" "type e' \<noteq> Nop"
    and "orig_start e' = orig_start e" "new_start e' = new_start e" "wf_instr e'"
    and "p' = (fst p - orig_length e + orig_length e', snd p - new_length e + new_length e')"
    and "type e' = Add \<or> type e' = Change \<longrightarrow> f'"
  shows "build_inv a b p0 (mk_edit Nop 0 0 0 0 # es0 @ [e']) p' f'"
proof -
  from inv have c: "contiguous p0 (es0 @ [e]) p"
    and w: "\<forall>x \<in> set es0. wf_instr x \<and> nop_matches a b x"
    and al: "nop_edit_alternate (mk_edit Nop 0 0 0 0 # es0 @ [e])"
    unfolding build_inv_def by auto
  from c obtain r where r: "contiguous p0 es0 r" "orig_start e = fst r" "new_start e = snd r"
    "p = (fst r + orig_length e, snd r + new_length e)"
    unfolding contiguous_snoc by blast
  have "contiguous p0 (es0 @ [e']) p'"
    unfolding contiguous_snoc using r assms(4,5,7) by (intro exI [of _ r]) simp
  moreover have "nop_edit_alternate (mk_edit Nop 0 0 0 0 # es0 @ [e'])"
    using al assms(2,3) unfolding nop_edit_alternate_def by simp
  moreover have "\<forall>x \<in> set (es0 @ [e']). wf_instr x \<and> nop_matches a b x"
    using w assms(3,6) by (auto simp: nop_matches_def)
  ultimately show ?thesis
    unfolding build_inv_def using assms(8) by simp
qed

lemma build_inv_snoc:
  assumes inv: "build_inv a b p0 dq p f"
    and "orig_start e = fst p" "new_start e = snd p" "wf_instr e" "nop_matches a b e"
    and "(type (last dq) = Nop) \<noteq> (type e = Nop)"
    and "type e = Add \<or> type e = Change \<longrightarrow> f'"
  shows "build_inv a b p0 (dq @ [e]) (fst p + orig_length e, snd p + new_length e) f'"
proof -
  from inv obtain es where dq: "dq = mk_edit Nop 0 0 0 0 # es" and c: "contiguous p0 es p"
    and w: "\<forall>x \<in> set es. wf_instr x \<and> nop_matches a b x"
    and al: "nop_edit_alternate dq"
    unfolding build_inv_def by auto
  have "contiguous p0 (es @ [e]) (fst p + orig_length e, snd p + new_length e)"
    unfolding contiguous_snoc using c assms(2,3) by (intro exI [of _ p]) simp
  moreover have "nop_edit_alternate (dq @ [e])"
  proof -
    have "dq \<noteq> []" using dq by simp
    then have "last (map (\<lambda>e. type e = Nop) dq) = (type (last dq) = Nop)"
      by (simp add: last_map)
    then have "alternates (map (\<lambda>e. type e = Nop) dq @ [type e = Nop])"
      using al assms(6) unfolding nop_edit_alternate_def alternates_snoc by simp
    then show ?thesis unfolding nop_edit_alternate_def by simp
  qed
  ultimately show ?thesis
    unfolding build_inv_def using w assms(4,5,7) dq by simp
qed

lemma push_delete_inv:
  assumes inv: "build_inv a b p0 dq (x, y) f" and nf: "\<not> f"
  shows "build_inv a b p0 (push_delete dq x y) (x + 1, y) False
         \<and> type (last (push_delete dq x y)) = Delete"
proof (cases "type (last dq) = Delete")
  case True
  then have "type (last dq) \<noteq> Nop" by simp
  from build_inv_last_edit [OF inv this] obtain es0 e where
    dq: "dq = mk_edit Nop 0 0 0 0 # es0 @ [e]" and l: "last dq = e"
    and bl: "butlast dq = mk_edit Nop 0 0 0 0 # es0" by blast
  let ?e' = "mk_edit Delete (orig_start e) (orig_length e + 1) y 0"
  have pd: "push_delete dq x y = mk_edit Nop 0 0 0 0 # es0 @ [?e']"
    using True l bl by (simp add: push_delete_def)
  from inv have c: "contiguous p0 (es0 @ [e]) (x, y)" and w: "wf_instr e"
    unfolding build_inv_def dq by auto
  from w True l have wl: "0 < orig_length e" "new_length e = 0"
    by (auto simp: wf_instr_def)
  from c wl have ns: "new_start e = y"
    unfolding contiguous_snoc by auto
  have "build_inv a b p0 (mk_edit Nop 0 0 0 0 # es0 @ [?e']) (x + 1, y) False"
    using True l wl ns
    by (intro build_inv_replace_last [OF inv [unfolded dq]]) (auto simp: wf_instr_def)
  then show ?thesis unfolding pd by simp
next
  case False
  then have nop: "type (last dq) = Nop"
    using inv nf unfolding build_inv_def by (cases "type (last dq)") auto
  have pd: "push_delete dq x y = dq @ [mk_edit Delete x 1 y 0]"
    using False by (simp add: push_delete_def)
  have "build_inv a b p0 (dq @ [mk_edit Delete x 1 y 0])
          (fst (x, y) + orig_length (mk_edit Delete x 1 y 0),
           snd (x, y) + new_length (mk_edit Delete x 1 y 0)) False"
    using nop by (intro build_inv_snoc [OF inv]) (auto simp: wf_instr_def nop_matches_def)
  then show ?thesis unfolding pd by simp
qed

lemma push_add_inv:
  assumes inv: "build_inv a b p0 dq (x, y) f"
  shows "build_inv a b p0 (push_add dq x y) (x, y + 1) True
         \<and> (type (last (push_add dq x y)) = Add \<or> type (last (push_add dq x y)) = Change)"
proof (cases "type (last dq) = Nop")
  case True
  have pa: "push_add dq x y = dq @ [mk_edit Add x 0 y 1]"
    using True by (simp add: push_add_def)
  have "build_inv a b p0 (dq @ [mk_edit Add x 0 y 1])
          (fst (x, y) + orig_length (mk_edit Add x 0 y 1),
           snd (x, y) + new_length (mk_edit Add x 0 y 1)) True"
    using True by (intro build_inv_snoc [OF inv]) (auto simp: wf_instr_def nop_matches_def)
  then show ?thesis unfolding pa by simp
next
  case False
  from build_inv_last_edit [OF inv this] obtain es0 e where
    dq: "dq = mk_edit Nop 0 0 0 0 # es0 @ [e]" and l: "last dq = e"
    and bl: "butlast dq = mk_edit Nop 0 0 0 0 # es0" by blast
  from inv have c: "contiguous p0 (es0 @ [e]) (x, y)" and w: "wf_instr e"
    unfolding build_inv_def dq by auto
  show ?thesis
  proof (cases "type e = Add")
    case True
    let ?e' = "mk_edit Add x 0 (new_start e) (new_length e + 1)"
    have pa: "push_add dq x y = mk_edit Nop 0 0 0 0 # es0 @ [?e']"
      using True l bl by (simp add: push_add_def)
    from w True have wl: "orig_length e = 0" "0 < new_length e"
      by (auto simp: wf_instr_def)
    from c wl have os: "orig_start e = x"
      unfolding contiguous_snoc by auto
    have "build_inv a b p0 (mk_edit Nop 0 0 0 0 # es0 @ [?e']) (x, y + 1) True"
      using True wl os
      by (intro build_inv_replace_last [OF inv [unfolded dq]]) (auto simp: wf_instr_def)
    then show ?thesis unfolding pa by simp
  next
    case na: False
    let ?e' = "mk_edit Change (orig_start e) (orig_length e) (new_start e) (new_length e + 1)"
    have dc: "type e = Delete \<or> type e = Change"
      using False na l by (cases "type e") auto
    then have pa: "push_add dq x y = mk_edit Nop 0 0 0 0 # es0 @ [?e']"
      using na l bl by (auto simp: push_add_def)
    from w dc have wl: "0 < orig_length e" "0 \<le> new_length e"
      by (auto simp: wf_instr_def)
    have "build_inv a b p0 (mk_edit Nop 0 0 0 0 # es0 @ [?e']) (x, y + 1) True"
      using dc wl
      by (intro build_inv_replace_last [OF inv [unfolded dq]]) (auto simp: wf_instr_def)
    then show ?thesis unfolding pa by simp
  qed
qed

lemma build_inv_weaken: "build_inv a b p0 dq p f \<Longrightarrow> (f \<longrightarrow> f') \<Longrightarrow> build_inv a b p0 dq p f'"
  unfolding build_inv_def by blast

lemma push_nop_inv:
  assumes inv: "build_inv a b p0 dq (x1, y1) f" and ne: "type (last dq) \<noteq> Nop"
    and "0 \<le> x1" "0 \<le> y1" "xn = snake a b x1 y1" "yn = y1 + (xn - x1)" "x1 \<noteq> xn"
  shows "build_inv a b p0 (dq @ [mk_edit Nop x1 (xn - x1) y1 (yn - y1)]) (xn, yn) f'"
proof -
  let ?e = "mk_edit Nop x1 (xn - x1) y1 (yn - y1)"
  have gt: "x1 < xn" using assms(5,7) snake_ge [of x1 a b y1] by simp
  have "nop_matches a b ?e"
    using snake_segment [OF assms(3,4), of a b] assms(5,6) by (simp add: nop_matches_def)
  moreover have "wf_instr ?e" using gt assms(6) by (simp add: wf_instr_def)
  ultimately have "build_inv a b p0 (dq @ [?e])
      (fst (x1, y1) + orig_length ?e, snd (x1, y1) + new_length ?e) f'"
    using ne by (intro build_inv_snoc [OF inv]) auto
  then show ?thesis by simp
qed

text \<open>The loop of \<open>build_edit_script\<close> keeps \<open>build_inv\<close> along a path, and no assertion
  fails.\<close>

lemma build_loop_inv:
  assumes "ok_path a b f ((x, y) # ps)" "build_inv a b p0 dq (x, y) f" "0 \<le> x" "0 \<le> y"
  shows "\<exists>dq' f'. build_loop ps dq x y (x - y) = Inr dq'
           \<and> build_inv a b p0 dq' (last ((x, y) # ps)) f'"
  using assms
proof (induction ps arbitrary: x y dq f)
  case Nil
  then show ?case by auto
next
  case (Cons q ps)
  obtain xn yn where q: "q = (xn, yn)" by (cases q)
  let ?f2 = "(xn, yn) = (x, y + 1)"
  from Cons.prems(1) have link: "del_link a b (x, y) (xn, yn) \<and> \<not> f \<or> ins_link a b (x, y) (xn, yn)"
    and ok: "ok_path a b ?f2 ((xn, yn) # ps)"
    unfolding q by simp_all
  have goal: "\<exists>dq2. build_loop (q # ps) dq x y (x - y) = build_loop ps dq2 xn yn (xn - yn)
                \<and> build_inv a b p0 dq2 (xn, yn) ?f2 \<and> 0 \<le> xn \<and> 0 \<le> yn"
  proof (cases "del_link a b (x, y) (xn, yn) \<and> \<not> f")
    case True
    then have xn: "xn = snake a b (x + 1) y" and yn: "yn = y + (xn - (x + 1))"
      by (simp_all add: del_link_def snake_pt_def)
    have ge: "x + 1 \<le> xn" unfolding xn by (rule snake_ge)
    have k: "x - y < xn - yn" using yn by simp
    from push_delete_inv [OF Cons.prems(2)] True
    have inv1: "build_inv a b p0 (push_delete dq x y) (x + 1, y) False"
      and l1: "type (last (push_delete dq x y)) = Delete" by auto
    show ?thesis
    proof (cases "x + 1 = xn")
      case eq: True
      then have "build_loop (q # ps) dq x y (x - y) = build_loop ps (push_delete dq x y) xn yn (xn - yn)"
        unfolding q by (subst build_loop_del [OF k refl]) simp
      moreover have "build_inv a b p0 (push_delete dq x y) (xn, yn) ?f2"
        using inv1 eq yn by (auto intro: build_inv_weaken)
      ultimately show ?thesis using ge yn Cons.prems(3,4) by auto
    next
      case ne: False
      let ?dq2 = "push_delete dq x y @ [mk_edit Nop (x + 1) (xn - (x + 1)) y (yn - y)]"
      have "build_loop (q # ps) dq x y (x - y) = build_loop ps ?dq2 xn yn (xn - yn)"
        unfolding q using ne yn by (subst build_loop_del [OF k refl]) simp
      moreover have "build_inv a b p0 ?dq2 (xn, yn) ?f2"
        using l1 ne Cons.prems(3,4) xn yn by (intro push_nop_inv [OF inv1]) auto
      ultimately show ?thesis using ge yn Cons.prems(3,4) by auto
    qed
  next
    case False
    with link have "ins_link a b (x, y) (xn, yn)" by blast
    then have xn: "xn = snake a b x (y + 1)" and yn: "yn = (y + 1) + (xn - x)"
      by (simp_all add: ins_link_def snake_pt_def)
    have ge: "x \<le> xn" unfolding xn by (rule snake_ge)
    have k: "xn - yn < x - y" using yn by simp
    from push_add_inv [OF Cons.prems(2)]
    have inv1: "build_inv a b p0 (push_add dq x y) (x, y + 1) True"
      and l1: "type (last (push_add dq x y)) \<noteq> Nop" by auto
    show ?thesis
    proof (cases "x = xn")
      case eq: True
      then have "build_loop (q # ps) dq x y (x - y) = build_loop ps (push_add dq x y) xn yn (xn - yn)"
        unfolding q by (subst build_loop_add [OF k refl]) simp
      moreover have "build_inv a b p0 (push_add dq x y) (xn, yn) ?f2"
        using inv1 eq yn by (auto intro: build_inv_weaken)
      ultimately show ?thesis using ge yn Cons.prems(3,4) by auto
    next
      case ne: False
      let ?dq2 = "push_add dq x y @ [mk_edit Nop x (xn - x) (y + 1) (yn - (y + 1))]"
      have "build_loop (q # ps) dq x y (x - y) = build_loop ps ?dq2 xn yn (xn - yn)"
        unfolding q using ne yn by (subst build_loop_add [OF k refl]) simp
      moreover have "build_inv a b p0 ?dq2 (xn, yn) ?f2"
        using l1 ne Cons.prems(3,4) xn yn by (intro push_nop_inv [OF inv1]) auto
      ultimately show ?thesis using ge yn Cons.prems(3,4) by auto
    qed
  qed
  then obtain dq2 where step: "build_loop (q # ps) dq x y (x - y) = build_loop ps dq2 xn yn (xn - yn)"
    and inv2: "build_inv a b p0 dq2 (xn, yn) ?f2" and nn: "0 \<le> xn" "0 \<le> yn" by blast
  have lst: "last ((x, y) # q # ps) = last ((xn, yn) # ps)" by (simp add: q)
  show ?case unfolding step lst by (rule Cons.IH [OF ok inv2 nn])
qed

section \<open>Applying a contiguous script\<close>

lemma wf_instr_nonneg: "wf_instr e \<Longrightarrow> 0 \<le> orig_length e \<and> 0 \<le> new_length e"
  by (cases "type e") (auto simp: wf_instr_def)

lemma contiguous_mono:
  "contiguous p es q \<Longrightarrow> \<forall>e \<in> set es. wf_instr e \<Longrightarrow> fst p \<le> fst q \<and> snd p \<le> snd q"
proof (induction es arbitrary: p)
  case Nil
  then show ?case by simp
next
  case (Cons e es)
  then have "fst p + orig_length e \<le> fst q \<and> snd p + new_length e \<le> snd q" by fastforce
  with wf_instr_nonneg [of e] Cons.prems(2) show ?case by auto
qed

lemma take_drop_join: "take i (drop s xs) @ drop (s + i) xs = drop s xs"
  by (metis add.commute append_take_drop_id drop_drop)

lemma take_drop_add: "take (i + j) (drop s xs) = take i (drop s xs) @ take j (drop (s + i) xs)"
  by (simp add: take_add add.commute)

text \<open>
  Applying a contiguous script whose \<open>Nop\<close> instructions cover equal lines: when the lines
  of \<open>a\<close> from \<open>pos\<close> to \<open>x\<close> equal the lines of \<open>b\<close> that end at \<open>y\<close>, the output is \<open>b\<close> from
  the start of those lines.
\<close>

lemma apply_from_contiguous:
  assumes "contiguous (int x, int y) es (int (length a), int (length b))"
    and "\<forall>e \<in> set es. wf_instr e \<and> nop_matches a b e"
    and "pos \<le> x" "x - pos \<le> y"
    and "take (x - pos) (drop pos a) = take (x - pos) (drop (y - (x - pos)) b)"
  shows "apply_from es (int pos) a b = drop (y - (x - pos)) b"
  using assms
proof (induction es arbitrary: x y pos)
  case Nil
  then have x: "x = length a" and y: "y = length b" by simp_all
  have e1: "take (x - pos) (drop pos a) = drop pos a" unfolding x by simp
  have e2: "take (x - pos) (drop (y - (x - pos)) b) = drop (y - (x - pos)) b"
    using Nil.prems(4) unfolding y by simp
  have "drop pos a = drop (y - (x - pos)) b"
    using Nil.prems(5) unfolding e1 e2 .
  then show ?case by (simp only: apply_from.simps nat_int)
next
  case (Cons e es)
  from Cons.prems(1) have os: "orig_start e = int x" and ns: "new_start e = int y"
    and c: "contiguous (int x + orig_length e, int y + new_length e) es (int (length a), int (length b))"
    by simp_all
  from Cons.prems(2) have wf: "wf_instr e" and nm: "nop_matches a b e"
    and rest: "\<forall>e \<in> set es. wf_instr e \<and> nop_matches a b e" by simp_all
  define ol where "ol = nat (orig_length e)"
  define nl where "nl = nat (new_length e)"
  have lens: "orig_length e = int ol" "new_length e = int nl"
    using wf_instr_nonneg [OF wf] by (simp_all add: ol_def nl_def)
  have c': "contiguous (int (x + ol), int (y + nl)) es (int (length a), int (length b))"
    using c by (simp add: lens)
  have bnd: "x + ol \<le> length a" "y + nl \<le> length b"
    using contiguous_mono [OF c'] rest by auto
  show ?case
  proof (cases "type e = Nop")
    case True
    then have l: "nl = ol" using wf by (simp add: wf_instr_def ol_def nl_def)
    have m: "take ol (drop x a) = take ol (drop y b)"
      using nm True by (simp add: nop_matches_def os ns ol_def)
    have e1: "x + ol - pos = (x - pos) + ol" using Cons.prems(3) by simp
    have e2: "y + nl - (x + ol - pos) = y - (x - pos)" using Cons.prems(3,4) l by simp
    have e3: "pos + (x - pos) = x" "y - (x - pos) + (x - pos) = y" using Cons.prems(3,4) by simp_all
    have pa: "take (x + ol - pos) (drop pos a) = take (x - pos) (drop pos a) @ take ol (drop x a)"
      unfolding e1 using take_drop_add [of "x - pos" ol pos a, unfolded e3] .
    have pb: "take (x + ol - pos) (drop (y - (x - pos)) b)
              = take (x - pos) (drop (y - (x - pos)) b) @ take ol (drop y b)"
      unfolding e1 using take_drop_add [of "x - pos" ol "y - (x - pos)" b, unfolded e3] .
    have p: "take (x + ol - pos) (drop pos a) = take (x + ol - pos) (drop (y + nl - (x + ol - pos)) b)"
      unfolding e2 pa pb Cons.prems(5) m ..
    have "apply_from es (int pos) a b = drop (y + nl - (x + ol - pos)) b"
      using Cons.prems(3,4) l by (intro Cons.IH [OF c' rest _ _ p]) simp_all
    moreover have "y + nl - (x + ol - pos) = y - (x - pos)" using Cons.prems(3,4) l by simp
    ultimately show ?thesis using True by simp
  next
    case False
    have "apply_from es (int (x + ol)) a b = drop (y + nl - (x + ol - (x + ol))) b"
      by (intro Cons.IH [OF c' rest]) simp_all
    then have r: "apply_from es (int x + int ol) a b = drop (y + nl) b" by simp
    have e3: "y - (x - pos) + (x - pos) = y" using Cons.prems(4) by simp
    have "apply_from (e # es) (int pos) a b
          = take (x - pos) (drop pos a) @ take nl (drop y b) @ drop (y + nl) b"
      using False r Cons.prems(3) by (simp add: os ns lens nat_diff_distrib)
    also have "\<dots> = take (x - pos) (drop (y - (x - pos)) b) @ drop y b"
      unfolding Cons.prems(5) take_drop_join ..
    also have "\<dots> = drop (y - (x - pos)) b"
      using take_drop_join [of "x - pos" "y - (x - pos)" b] unfolding e3 .
    finally show ?thesis .
  qed
qed

section \<open>Identical inputs\<close>

lemma extend_snake_same:
  "0 \<le> x \<Longrightarrow> x \<le> int (length a) \<Longrightarrow> extend_snake a a x x = Inr (int (length a), int (length a))"
proof (induction "nat (int (length a) - x)" arbitrary: x)
  case 0
  then have "x = int (length a)" by simp
  then show ?case by (subst extend_snake.simps) simp
next
  case (Suc j)
  then have lt: "x < int (length a)" and rest: "j = nat (int (length a) - (x + 1))"
    by linarith+
  have "extend_snake a a (x + 1) (x + 1) = Inr (int (length a), int (length a))"
    using Suc.hyps(1) [OF rest] Suc.prems lt by simp
  then show ?case
    using lt Suc.prems by (subst extend_snake.simps) (simp add: vec_read_in_range)
qed

lemma find_shortest_path_same: "find_shortest_path a a = Inr []"
proof -
  have sel: "select_prev (Map.empty(max_diff + 1 \<mapsto> 0)) 0 0 = Inr 0"
    by (simp add: select_prev_def buf_read_def max_diff_def)
  have "diag_loop a a 0 0 (Map.empty(max_diff + 1 \<mapsto> 0)) []
        = Inr (True, (Map.empty(max_diff + 1 \<mapsto> 0))(max_diff \<mapsto> int (length a)), [int (length a)])"
    using max_diff_pos by (subst diag_loop.simps) (simp add: sel extend_snake_same buf_write_def)
  then show ?thesis
    unfolding find_shortest_path_def
    using max_diff_pos by (subst search_loop.simps) simp
qed

lemma shortest_edit_script_same: "shortest_edit_script a a = Inr [mk_edit Nop 0 0 0 0]"
  by (simp add: shortest_edit_script_def find_shortest_path_same reconstruct_trace_def
      build_edit_script_def vec_read_def)

text \<open>
  C3, as the code has it. For every sequence \<open>a\<close>, \<open>shortest_edit_script a a\<close> returns the
  single instruction \<open>{Nop, 0, 0, 0, 0}\<close>: the search ends in round 0, the trace is the one
  point \<open>(n, n)\<close>, and \<open>build_edit_script\<close> starts at that point, so the initial \<open>Nop\<close> keeps
  its length 0 and is not widened to \<open>[0, n)\<close>. \<open>normal_print\<close> writes nothing for it.
\<close>

theorem identical_inputs_zero_length_nop:
  "shortest_edit_script a a = Inr [mk_edit Nop 0 0 0 0]
   \<and> normal_print a a [mk_edit Nop 0 0 0 0] = Inr []"
  by (simp add: shortest_edit_script_same)

text \<open>
  C3, as the specification states it, fails for \<open>a = [''A'']\<close>: the script is not the
  \<open>Nop\<close> covering \<open>[0, 1)\<close>.
\<close>

theorem identical_inputs_counterexample:
  "shortest_edit_script [''A''] [''A''] \<noteq> Inr [mk_edit Nop 0 1 0 1]"
  by (simp add: shortest_edit_script_same mk_edit_def)

section \<open>Both inputs empty\<close>

text \<open>
  C10. For \<open>n = m = 0\<close> the script is exactly \<open>{Nop, 0, 0, 0, 0}\<close>, and \<open>normal_print\<close> and
  \<open>unified_print\<close> write nothing for it.
\<close>

theorem empty_inputs_single_nop:
  "shortest_edit_script ([] :: string list) [] = Inr [mk_edit Nop 0 0 0 0]
   \<and> normal_print [] [] [mk_edit Nop 0 0 0 0] = Inr []
   \<and> unified_print [] [] [mk_edit Nop 0 0 0 0] = Inr []"
  by code_simp

section \<open>The out-of-range read of \<open>reconstruct_trace\<close>\<close>

text \<open>
  C6 fails on the code. For \<open>a = [''A'']\<close> and \<open>b = []\<close> the search records the single
  round \<open>[0]\<close> and ends on diagonal \<open>k = 1\<close> of round 1. In \<open>reconstruct_trace\<close>, at
  \<open>d = 0\<close>, \<open>idx = 0\<close>; the guard \<open>idx > d\<close> is false, and \<open>v[idx+1] = v[1]\<close> is read from
  a record of size 1.
\<close>

theorem reconstruct_trace_reads_past_record:
  "find_shortest_path [''A''] ([] :: string list) = Inr [[0]]
   \<and> reconstruct_trace 1 0 [[0]] = Inl OutOfBounds
   \<and> shortest_edit_script [''A''] ([] :: string list) = Inl OutOfBounds"
  by code_simp

section \<open>The example of the specification\<close>

text \<open>
  C8 fails on the code. For \<open>a = [A, B, C]\<close> and \<open>b = [A, X, C]\<close> the search records
  \<open>[[1], [1, 2]]\<close> and ends on diagonal \<open>k = 0\<close> of round 2. \<open>reconstruct_trace\<close> goes from
  \<open>(3, 3)\<close> to \<open>(2, 1)\<close> on diagonal \<open>k = 1\<close>; then, at \<open>d = 0\<close>, \<open>idx = 0\<close>, the guard
  \<open>idx > d\<close> is false, and \<open>v[idx+1] = v[1]\<close> is read from the record \<open>[1]\<close> of round 0 (the
  defect of C6). No script is returned, and nothing is printed for this input.
\<close>

theorem example_reads_past_record:
  "find_shortest_path [''A'', ''B'', ''C''] [''A'', ''X'', ''C''] = Inr [[1], [1, 2]]
   \<and> reconstruct_trace 3 3 [[1], [1, 2]] = Inl OutOfBounds
   \<and> shortest_edit_script [''A'', ''B'', ''C''] [''A'', ''X'', ''C''] = Inl OutOfBounds"
  by code_simp

section \<open>The script of a search that ended\<close>

lemma rounds_0: "rounds a b 0 [0] = rounds a b 0 (prev_round a b 0)"
  by simp

lemma history_records:
  assumes "find_shortest_path a b = Inr H" "d < length H"
  shows "H ! d = prev_round a b (Suc d)"
  using assms rounds_struct [of d a b 0] unfolding find_shortest_path_rounds by simp

lemma history_end:
  assumes "find_shortest_path a b = Inr H" "int (length H) < max_diff"
  shows "\<exists>j \<le> length H. pt a b (length H) j = (int (length a), int (length b))
           \<and> diag (length H) j = int (length a) - int (length b)"
proof -
  have H: "H = rounds a b 0 (prev_round a b 0)"
    using assms(1) unfolding find_shortest_path_rounds by simp
  have "hits a b (length H) (prev_round a b (Suc (length H)))"
    using rounds_converged [of 0 a b] assms(2) unfolding H by simp
  then obtain j where "j \<in> set [0..<Suc (length H)]"
    and e: "at_end a b (length H) j (prev_round a b (Suc (length H)) ! j)"
    unfolding hits_def length_prev_round_Suc by blast
  then have j: "j < Suc (length H)" by (simp del: upt_Suc)
  with e show ?thesis
    by (intro exI [of _ j]) (auto simp: at_end_def pt_def)
qed

lemma reconstruct_trace_path:
  assumes "find_shortest_path a b = Inr H" "int (length H) < max_diff"
    and "reconstruct_trace (int (length a)) (int (length b)) H = Inr tr"
  shows "\<exists>ps. tr = (snake a b 0 0, snake a b 0 0) # ps
           \<and> last tr = (int (length a), int (length b))
           \<and> ok_path a b False tr"
proof -
  let ?n = "int (length a)" and ?m = "int (length b)"
  from history_end [OF assms(1,2)] obtain j where j: "j \<le> length H"
    and p: "pt a b (length H) j = (?n, ?m)" and k: "diag (length H) j = ?n - ?m" by blast
  from assms(3) obtain tr' where
    tl: "trace_loop (if ?n > ?m then ?n else ?m) H (length H) (diag (length H) j) [(?n, ?m)] = Inr tr'"
    and tr: "tr = rev tr'"
    unfolding reconstruct_trace_def bind_err_eq_Inr k by auto
  have H: "\<forall>d<length H. H ! d = prev_round a b (Suc d)"
    using history_records [OF assms(1)] by simp
  have mx: "0 \<le> (if ?n > ?m then ?n else ?m)" by simp
  from trace_loop_path [OF H j mx tl, of False] obtain more where
    m: "tr' = [(?n, ?m)] @ more" and ok: "ok_path a b False (rev more @ [pt a b (length H) j])"
    and hd: "hd (rev more @ [pt a b (length H) j]) = (snake a b 0 0, snake a b 0 0)"
    by auto
  have t: "tr = rev more @ [(?n, ?m)]" using tr m by simp
  then have "tr \<noteq> []" by simp
  then have "tr = hd tr # tl tr" by simp
  then have "tr = (snake a b 0 0, snake a b 0 0) # tl tr"
    using hd unfolding p t [symmetric] by simp
  moreover have "last tr = (?n, ?m)" using t by simp
  moreover have "ok_path a b False tr" using ok unfolding p t .
  ultimately show ?thesis by blast
qed

text \<open>The whole pipeline, for a search that ended and a trace that was returned.\<close>

lemma script_invariant:
  assumes "find_shortest_path a b = Inr H" "int (length H) < max_diff"
    and "shortest_edit_script a b = Inr s"
  shows "\<exists>f. build_inv a b (snake a b 0 0, snake a b 0 0) s (int (length a), int (length b)) f"
proof -
  let ?x0 = "snake a b 0 0"
  from assms(1,3) obtain tr where
    rt: "reconstruct_trace (int (length a)) (int (length b)) H = Inr tr"
    and bs: "build_edit_script tr = Inr s"
    unfolding shortest_edit_script_def bind_err_eq_Inr by auto
  from reconstruct_trace_path [OF assms(1,2) rt] obtain ps where
    tr: "tr = (?x0, ?x0) # ps" and l: "last tr = (int (length a), int (length b))"
    and ok: "ok_path a b False tr" by blast
  have x0: "0 \<le> ?x0" using snake_ge [of 0 a b 0] by simp
  have inv0: "build_inv a b (?x0, ?x0) [mk_edit Nop 0 0 0 0] (?x0, ?x0) False"
    by (simp add: build_inv_def nop_edit_alternate_def)
  from build_loop_inv [OF ok [unfolded tr] inv0 x0 x0] obtain dq' f' where
    bl: "build_loop ps [mk_edit Nop 0 0 0 0] ?x0 ?x0 (?x0 - ?x0) = Inr dq'"
    and inv: "build_inv a b (?x0, ?x0) dq' (last ((?x0, ?x0) # ps)) f'" by blast
  have "build_edit_script tr = build_loop ps [mk_edit Nop 0 0 0 0] ?x0 ?x0 (?x0 - ?x0)"
    unfolding tr build_edit_script_def by (simp add: vec_read_def)
  with bs bl have "s = dq'" by simp
  with inv l tr show ?thesis by auto
qed

lemma alternates_distinct_adj:
  "alternates (map (\<lambda>e. type e = Nop) s) \<Longrightarrow> distinct_adj (map type s)"
proof (induction s)
  case Nil
  then show ?case by simp
next
  case (Cons e s)
  then show ?case by (cases s) auto
qed

text \<open>
  C1, as the code has it. When the search reaches the end point within its \<open>max_diff\<close>
  rounds (the history has fewer than \<open>max_diff\<close> records) and \<open>shortest_edit_script\<close> returns
  a script (that is, \<open>reconstruct_trace\<close> made none of the out-of-range reads of C6),
  applying the \<open>Delete\<close>, \<open>Add\<close> and \<open>Change\<close> operations of the script to \<open>a\<close>, in order,
  gives \<open>b\<close>.
\<close>

theorem round_trip_when_converged:
  assumes "find_shortest_path a b = Inr H" "int (length H) < max_diff"
    and "shortest_edit_script a b = Inr s"
  shows "apply_script s a b = b"
proof -
  define x0 where "x0 = nat (snake a b 0 0)"
  have x0: "snake a b 0 0 = int x0"
    using snake_ge [of 0 a b 0] by (simp add: x0_def)
  from script_invariant [OF assms] obtain es where s: "s = mk_edit Nop 0 0 0 0 # es"
    and c: "contiguous (int x0, int x0) es (int (length a), int (length b))"
    and w: "\<forall>e \<in> set es. wf_instr e \<and> nop_matches a b e"
    unfolding build_inv_def x0 by blast
  have "take (x0 - 0) (drop 0 a) = take (x0 - 0) (drop (x0 - (x0 - 0)) b)"
    using snake_segment [of 0 0 a b] by (simp add: x0_def)
  from apply_from_contiguous [OF c w _ _ this]
  have "apply_from es (int 0) a b = drop (x0 - (x0 - 0)) b" by simp
  then show ?thesis by (simp add: apply_script_def s)
qed

theorem round_trip_witness:
  "find_shortest_path ''123456'' ''X12345Y6'' = Inr [[0], [5, 1]]
   \<and> int (length [[0], [5, 1 :: int]]) < max_diff
   \<and> shortest_edit_script ''123456'' ''X12345Y6''
       = Inr [mk_edit Nop 0 0 0 0, mk_edit Add 0 0 0 1, mk_edit Nop 0 5 1 5,
              mk_edit Add 5 0 6 1, mk_edit Nop 5 1 7 1]
   \<and> apply_script [mk_edit Nop 0 0 0 0, mk_edit Add 0 0 0 1, mk_edit Nop 0 5 1 5,
              mk_edit Add 5 0 6 1, mk_edit Nop 5 1 7 1] ''123456'' ''X12345Y6'' = ''X12345Y6''"
proof -
  have h1: "find_shortest_path ''123456'' ''X12345Y6'' = Inr [[0], [5, 1]]"
    by code_simp
  have h2: "int (length [[0], [5, 1 :: int]]) < max_diff"
    by (simp add: max_diff_def)
  have h3: "shortest_edit_script ''123456'' ''X12345Y6''
       = Inr [mk_edit Nop 0 0 0 0, mk_edit Add 0 0 0 1, mk_edit Nop 0 5 1 5,
              mk_edit Add 5 0 6 1, mk_edit Nop 5 1 7 1]"
    by code_simp
  from round_trip_when_converged [OF h1 h2 h3] h1 h2 h3 show ?thesis by blast
qed

text \<open>
  C9, as the code has it. For a search that ended within \<open>max_diff\<close> rounds, a returned
  script is the zero-length \<open>{Nop, 0, 0, 0, 0}\<close> followed by instructions \<open>es\<close> such that:
  a \<open>Delete\<close> has \<open>orig_length > 0\<close> and \<open>new_length = 0\<close>, an \<open>Add\<close> has \<open>orig_length = 0\<close> and
  \<open>new_length > 0\<close>, a \<open>Change\<close> has both lengths \<open>> 0\<close>, a \<open>Nop\<close> of \<open>es\<close> has equal lengths
  \<open>> 0\<close>; read in order, the instructions of \<open>es\<close> cover \<open>[x0, n)\<close> and \<open>[x0, m)\<close> without
  gap or overlap, where the first \<open>x0\<close> elements of \<open>a\<close> and \<open>b\<close> are equal (the common prefix
  is covered by no instruction); \<open>Nop\<close> and non-\<open>Nop\<close> instructions take turns, so no two
  adjacent instructions have the same kind.
\<close>

theorem script_shape_when_converged:
  assumes "find_shortest_path a b = Inr H" "int (length H) < max_diff"
    and "shortest_edit_script a b = Inr s"
  shows "\<exists>x0 es. s = mk_edit Nop 0 0 0 0 # es
           \<and> 0 \<le> x0 \<and> take (nat x0) a = take (nat x0) b
           \<and> contiguous (x0, x0) es (int (length a), int (length b))
           \<and> (\<forall>e \<in> set es. wf_instr e)
           \<and> nop_edit_alternate s
           \<and> distinct_adj (map type s)"
proof -
  let ?x0 = "snake a b 0 0"
  from script_invariant [OF assms] obtain es where s: "s = mk_edit Nop 0 0 0 0 # es"
    and c: "contiguous (?x0, ?x0) es (int (length a), int (length b))"
    and w: "\<forall>e \<in> set es. wf_instr e"
    and al: "nop_edit_alternate s"
    unfolding build_inv_def by blast
  have "0 \<le> ?x0" using snake_ge [of 0 a b 0] by simp
  moreover have "take (nat ?x0) a = take (nat ?x0) b"
    using snake_segment [of 0 0 a b] by simp
  moreover have "distinct_adj (map type s)"
    using al unfolding nop_edit_alternate_def by (rule alternates_distinct_adj)
  ultimately show ?thesis using s c w al by blast
qed

theorem script_shape_witness:
  "find_shortest_path ''abcd'' ''abxcy'' = Inr [[2], [3, 3], [3, 4, 4]]
   \<and> int (length [[2], [3, 3], [3, 4, 4 :: int]]) < max_diff
   \<and> shortest_edit_script ''abcd'' ''abxcy''
       = Inr [mk_edit Nop 0 0 0 0, mk_edit Add 2 0 2 1, mk_edit Nop 2 1 3 1, mk_edit Change 3 1 4 1]
   \<and> take 2 ''abcd'' = take 2 ''abxcy''
   \<and> contiguous (2, 2) [mk_edit Add 2 0 2 1, mk_edit Nop 2 1 3 1, mk_edit Change 3 1 4 1]
         (int (length ''abcd''), int (length ''abxcy''))
   \<and> wf_instr (mk_edit Add 2 0 2 1) \<and> wf_instr (mk_edit Nop 2 1 3 1)
   \<and> wf_instr (mk_edit Change 3 1 4 1)
   \<and> nop_edit_alternate
        [mk_edit Nop 0 0 0 0, mk_edit Add 2 0 2 1, mk_edit Nop 2 1 3 1, mk_edit Change 3 1 4 1]
   \<and> distinct_adj (map type
        [mk_edit Nop 0 0 0 0, mk_edit Add 2 0 2 1, mk_edit Nop 2 1 3 1, mk_edit Change 3 1 4 1])"
proof -
  let ?es = "[mk_edit Add 2 0 2 1, mk_edit Nop 2 1 3 1, mk_edit Change 3 1 4 1]"
  have h1: "find_shortest_path ''abcd'' ''abxcy'' = Inr [[2], [3, 3], [3, 4, 4]]"
    by code_simp
  have h2: "int (length [[2], [3, 3], [3, 4, 4 :: int]]) < max_diff"
    by (simp add: max_diff_def)
  have h3: "shortest_edit_script ''abcd'' ''abxcy'' = Inr (mk_edit Nop 0 0 0 0 # ?es)"
    by code_simp
  from script_shape_when_converged [OF h1 h2 h3] obtain x0 es where
    s: "mk_edit Nop 0 0 0 0 # ?es = mk_edit Nop 0 0 0 0 # es"
    and pre: "take (nat x0) ''abcd'' = take (nat x0) ''abxcy''"
    and c: "contiguous (x0, x0) es (int (length ''abcd''), int (length ''abxcy''))"
    and w: "\<forall>e \<in> set es. wf_instr e"
    and al: "nop_edit_alternate (mk_edit Nop 0 0 0 0 # ?es)"
    and da: "distinct_adj (map type (mk_edit Nop 0 0 0 0 # ?es))"
    by blast
  from s have es: "es = ?es" by simp
  from c have x0: "x0 = 2" unfolding es by simp
  from pre have p: "take 2 ''abcd'' = take 2 ''abxcy''" unfolding x0 by simp
  from w have w': "wf_instr (mk_edit Add 2 0 2 1)" "wf_instr (mk_edit Nop 2 1 3 1)"
    "wf_instr (mk_edit Change 3 1 4 1)" unfolding es by simp_all
  from h1 h2 h3 p c [unfolded es x0] w' al da show ?thesis by blast
qed

text \<open>
  C9, as the specification states it, fails for \<open>a = ''A''\<close> and \<open>b = ''AB''\<close>: the script
  starts with a zero-width \<open>Nop\<close>, and its instructions do not cover \<open>[0, 1)\<close> of either
  sequence, so they are not contiguous from \<open>(0, 0)\<close> to \<open>(1, 2)\<close>.
\<close>

theorem script_shape_counterexample:
  "shortest_edit_script ''A'' ''AB'' = Inr [mk_edit Nop 0 0 0 0, mk_edit Add 1 0 1 1]
   \<and> \<not> contiguous (0, 0) [mk_edit Nop 0 0 0 0, mk_edit Add 1 0 1 1] (1, 2)
   \<and> orig_length (mk_edit Nop 0 0 0 0) = 0 \<and> new_length (mk_edit Nop 0 0 0 0) = 0"
  by code_simp

lemma history_length_le:
  assumes "find_shortest_path a b = Inr H"
  shows "int (length H) \<le> max_diff"
proof (cases "H = []")
  case True
  then show ?thesis using max_diff_pos by simp
next
  case False
  then have "length H - 1 < length H" by simp
  then have "int (0 + (length H - 1)) < max_diff"
    using rounds_struct [of "length H - 1" a b 0] assms
    unfolding find_shortest_path_rounds by simp
  then show ?thesis by simp
qed

section \<open>Inputs without a common element\<close>

text \<open>
  When \<open>a\<close> and \<open>b\<close> share no element no snake is longer than 0, round \<open>d\<close> records
  \<open>[0, 1, ..., d]\<close>, and the end point is reached in round \<open>n + m\<close>.
\<close>

lemma snake_disjoint:
  assumes "set a \<inter> set b = {}"
  shows "snake a b x y = x"
proof -
  have "a ! nat x \<noteq> b ! nat y" if "0 \<le> x" "0 \<le> y" "x < int (length a)" "y < int (length b)"
  proof -
    have "a ! nat x \<in> set a" and "b ! nat y \<in> set b" using that by simp_all
    with assms show ?thesis by fastforce
  qed
  then show ?thesis by (subst snake.simps) auto
qed

lemma prev_round_disjoint:
  assumes "set a \<inter> set b = {}"
  shows "prev_round a b (Suc d) = map int [0..<Suc d]"
proof (induction d)
  case 0
  show ?case
    by (simp add: prev_round.simps(2) round_rec_def reach_def snake_disjoint [OF assms] start_x_def)
next
  case (Suc d)
  have "reach a b (map int [0..<Suc d]) (Suc d) j = int j" if "j \<le> Suc d" for j
  proof -
    have "start_x (map int [0..<Suc d]) (Suc d) j = int j"
    proof (cases "j = 0")
      case True
      then show ?thesis by (simp add: start_x_def del: upt_Suc)
    next
      case False
      then have "map int [0..<Suc d] ! (j - 1) = int (j - 1)"
        using that by (subst nth_map) (simp_all del: upt_Suc)
      moreover have "map int [0..<Suc d] ! j = int j" if "j \<noteq> Suc d"
        using that \<open>j \<le> Suc d\<close> by (subst nth_map) (simp_all del: upt_Suc)
      ultimately show ?thesis
        using False by (auto simp: start_x_def simp del: upt_Suc)
    qed
    then show ?thesis by (simp add: reach_def snake_disjoint [OF assms])
  qed
  then have "map (reach a b (map int [0..<Suc d]) (Suc d)) [0..<Suc (Suc d)] = map int [0..<Suc (Suc d)]"
    by (intro map_cong refl) (simp del: upt_Suc)
  then show ?case
    unfolding prev_round.simps(2) [of a b "Suc d"] Suc.IH round_rec_def .
qed

lemma hits_disjoint:
  assumes "set a \<inter> set b = {}"
  shows "hits a b d (prev_round a b (Suc d)) \<longleftrightarrow> d = length a + length b"
proof -
  have nth: "map int [0..<Suc d] ! j = int j" if "j < Suc d" for j
    using that by (subst nth_map) (simp_all del: upt_Suc)
  have "hits a b d (map int [0..<Suc d])
        \<longleftrightarrow> (\<exists>j<Suc d. int j = int (length a) \<and> int j - diag d j = int (length b))"
    unfolding hits_def at_end_def using nth by (auto simp del: upt_Suc)
  also have "\<dots> \<longleftrightarrow> d = length a + length b"
  proof
    assume "\<exists>j<Suc d. int j = int (length a) \<and> int j - diag d j = int (length b)"
    then obtain j where "j < Suc d" "int j = int (length a)" "int j - diag d j = int (length b)"
      by blast
    then show "d = length a + length b" unfolding diag_def by linarith
  next
    assume d: "d = length a + length b"
    have "length a < Suc d" using d by simp
    moreover have "int (length a) - diag d (length a) = int (length b)"
      unfolding diag_def d by simp
    ultimately show "\<exists>j<Suc d. int j = int (length a) \<and> int j - diag d j = int (length b)"
      by blast
  qed
  finally show ?thesis unfolding prev_round_disjoint [OF assms] .
qed

lemma history_disjoint:
  assumes "set a \<inter> set b = {}" "find_shortest_path a b = Inr H"
  shows "int (length H) = min (int (length a + length b)) max_diff"
    and "\<forall>d<length H. H ! d = map int [0..<Suc d]"
proof -
  have H: "H = rounds a b 0 (prev_round a b 0)"
    using assms(2) unfolding find_shortest_path_rounds by simp
  have st: "H ! e = prev_round a b (Suc e) \<and> \<not> hits a b e (prev_round a b (Suc e))"
    if "e < length H" for e
    using rounds_struct [of e a b 0] that unfolding H by simp
  show "\<forall>d<length H. H ! d = map int [0..<Suc d]"
    using st prev_round_disjoint [OF assms(1)] by metis
  have le: "length H \<le> length a + length b"
  proof (rule ccontr)
    assume "\<not> length H \<le> length a + length b"
    then have "length a + length b < length H" by simp
    from st [OF this] show False unfolding hits_disjoint [OF assms(1)] by simp
  qed
  show "int (length H) = min (int (length a + length b)) max_diff"
  proof (cases "int (length H) < max_diff")
    case True
    then have "hits a b (length H) (prev_round a b (Suc (length H)))"
      using rounds_converged [of 0 a b] unfolding H by simp
    then have "length H = length a + length b" unfolding hits_disjoint [OF assms(1)] .
    then show ?thesis using True by simp
  next
    case False
    then have "int (length H) = max_diff"
      using history_length_le [OF assms(2)] by simp
    then show ?thesis using le by simp
  qed
qed

subsection \<open>An empty first sequence\<close>

lemma trace_loop_left_edge:
  assumes "\<forall>d<e. H ! d = map int [0..<Suc d]" "c = 0 \<or> c = 1" "0 \<le> max_n"
  shows "trace_loop max_n H e (- int e - c) trace
         = Inr (trace @ map (\<lambda>i. (0, int i + c)) (rev [0..<e]))"
  using assms
proof (induction e arbitrary: trace)
  case 0
  then show ?case by simp
next
  case (Suc d)
  define v where "v = map int [0..<Suc d]"
  have Hd: "H ! d = v" using Suc.prems(1) by (simp add: v_def)
  have len: "length v = d + 1" by (simp add: v_def)
  have v0: "vec_read v 0 = Inr 0"
    unfolding v_def vec_read_def by (simp del: upt_Suc add: upt_conv_Cons)
  have idx: "c_div ((- int (Suc d) - c) - 1 + int d) 2 = - 1"
    using Suc.prems(2) by (auto simp: c_div_def)
  have k: "- int (Suc d) - c + 1 = - int d - c" by simp
  have IH: "trace_loop max_n H d (- int d - c) (trace @ [(0, int d + c)])
            = Inr ((trace @ [(0, int d + c)]) @ map (\<lambda>i. (0, int i + c)) (rev [0..<d]))"
    using Suc.prems by (intro Suc.IH) simp_all
  have "trace_loop max_n H (Suc d) (- int (Suc d) - c) trace
        = trace_loop max_n H d (- int (Suc d) - c + 1) (trace @ [(0, 0 - (- int (Suc d) - c + 1))])"
    unfolding trace_loop.simps Hd Let_def idx
    using Suc.prems(3) by (simp add: len v0)
  also have "\<dots> = trace_loop max_n H d (- int d - c) (trace @ [(0, int d + c)])"
    unfolding k by (simp add: ac_simps)
  finally show ?case using IH by simp
qed

lemma build_loop_adds:
  assumes "1 \<le> j" "j \<le> e"
  shows "build_loop (map (\<lambda>i. (0, int i + c)) [Suc j..<Suc e])
           [mk_edit Nop 0 0 0 0, mk_edit Add 0 0 c (int j)] 0 (int j + c) (0 - (int j + c))
         = Inr [mk_edit Nop 0 0 0 0, mk_edit Add 0 0 c (int e)]"
  using assms
proof (induction "e - j" arbitrary: j)
  case 0
  then have "j = e" by simp
  then show ?case by simp
next
  case (Suc n)
  then have lt: "j < e" by simp
  let ?dq = "[mk_edit Nop 0 0 0 0, mk_edit Add 0 0 c (int j)]"
  have l: "[Suc j..<Suc e] = Suc j # [Suc (Suc j)..<Suc e]"
    using lt by (simp add: upt_conv_Cons)
  have pa: "push_add ?dq 0 (int j + c) = [mk_edit Nop 0 0 0 0, mk_edit Add 0 0 c (int (Suc j))]"
    by (simp add: push_add_def ac_simps)
  have k: "0 - (int (Suc j) + c) < 0 - (int j + c)" by simp
  have "build_loop (map (\<lambda>i. (0, int i + c)) [Suc j..<Suc e]) ?dq 0 (int j + c) (0 - (int j + c))
        = build_loop (map (\<lambda>i. (0, int i + c)) [Suc (Suc j)..<Suc e])
            [mk_edit Nop 0 0 0 0, mk_edit Add 0 0 c (int (Suc j))] 0 (int (Suc j) + c)
            (0 - (int (Suc j) + c))"
    unfolding l list.map by (subst build_loop_add [OF k refl]) (simp add: pa)
  also have "\<dots> = Inr [mk_edit Nop 0 0 0 0, mk_edit Add 0 0 c (int e)]"
    using Suc.hyps(2) lt by (intro Suc.hyps(1)) simp_all
  finally show ?case .
qed

lemma build_edit_script_left_edge:
  assumes "1 \<le> e"
  shows "build_edit_script (map (\<lambda>i. (0, int i + c)) [0..<Suc e])
         = Inr [mk_edit Nop 0 0 0 0, mk_edit Add 0 0 c (int e)]"
proof -
  have l: "[0..<Suc e] = 0 # 1 # [Suc 1..<Suc e]"
    using assms by (simp add: upt_conv_Cons)
  have pa: "push_add [mk_edit Nop 0 0 0 0] 0 c = [mk_edit Nop 0 0 0 0, mk_edit Add 0 0 c (int 1)]"
    by (simp add: push_add_def)
  have k: "0 - (int 1 + c) < 0 - c" by simp
  have "build_edit_script (map (\<lambda>i. (0, int i + c)) [0..<Suc e])
        = build_loop (map (\<lambda>i. (0, int i + c)) (1 # [Suc 1..<Suc e])) [mk_edit Nop 0 0 0 0] 0 c (0 - c)"
    unfolding l build_edit_script_def by (simp add: vec_read_def)
  also have "\<dots> = build_loop (map (\<lambda>i. (0, int i + c)) [Suc 1..<Suc e])
                      [mk_edit Nop 0 0 0 0, mk_edit Add 0 0 c (int 1)] 0 (int 1 + c) (0 - (int 1 + c))"
    unfolding list.map by (subst build_loop_add [OF k refl]) (simp add: pa ac_simps)
  also have "\<dots> = Inr [mk_edit Nop 0 0 0 0, mk_edit Add 0 0 c (int e)]"
    using assms by (intro build_loop_adds) simp_all
  finally show ?thesis .
qed

text \<open>
  For an empty \<open>a\<close> the path runs down the left edge of the edit graph, and no read of
  \<open>reconstruct_trace\<close> is out of range as long as \<open>b\<close> has at most \<open>max_diff + 1\<close> elements.
  With \<open>max_diff + 1\<close> elements the search has not ended, and the script starts at the
  second element of \<open>b\<close>.
\<close>

lemma shortest_edit_script_Nil:
  assumes "b \<noteq> []" "int (length b) \<le> max_diff + 1"
  shows "shortest_edit_script [] b
         = Inr [mk_edit Nop 0 0 0 0,
                mk_edit Add 0 0 (int (length b) - min (int (length b)) max_diff)
                  (min (int (length b)) max_diff)]"
proof -
  let ?m = "int (length b)"
  obtain H where H: "find_shortest_path [] b = Inr H"
    unfolding find_shortest_path_rounds by blast
  have dj: "set ([] :: 'a list) \<inter> set b = {}" by simp
  have len: "int (length H) = min ?m max_diff"
    using history_disjoint(1) [OF dj H] by simp
  note rec = history_disjoint(2) [OF dj H]
  define c where "c = ?m - int (length H)"
  have c: "c = 0 \<or> c = 1" using assms(2) len by (auto simp: c_def min_def)
  have "0 < ?m" using assms(1) by simp
  then have "0 < int (length H)" using len max_diff_pos by linarith
  then have e: "1 \<le> length H" by (cases H) simp_all
  have m: "?m = int (length H) + c" by (simp add: c_def)
  have "trace_loop ?m H (length H) (- int (length H) - c) [(0, ?m)]
        = Inr ([(0, ?m)] @ map (\<lambda>i. (0, int i + c)) (rev [0..<length H]))"
    using c by (intro trace_loop_left_edge [OF rec]) simp_all
  moreover have "- int (length H) - c = int (length ([] :: 'a list)) - ?m" using m by simp
  ultimately have "reconstruct_trace (int (length ([] :: 'a list))) ?m H
        = Inr (rev ([(0, ?m)] @ map (\<lambda>i. (0, int i + c)) (rev [0..<length H])))"
    unfolding reconstruct_trace_def by simp
  also have "rev ([(0, ?m)] @ map (\<lambda>i. (0, int i + c)) (rev [0..<length H]))
             = map (\<lambda>i. (0, int i + c)) [0..<Suc (length H)]"
    using m by (simp add: rev_map)
  finally have rt: "reconstruct_trace (int (length ([] :: 'a list))) ?m H
                    = Inr (map (\<lambda>i. (0, int i + c)) [0..<Suc (length H)])" .
  have "shortest_edit_script [] b = Inr [mk_edit Nop 0 0 0 0, mk_edit Add 0 0 c (int (length H))]"
    unfolding shortest_edit_script_def H bind_err_Inr rt
    by (rule build_edit_script_left_edge [OF e])
  then show ?thesis unfolding c_def len .
qed

subsection \<open>A non-empty first sequence\<close>

text \<open>
  From the end point the backward loop follows insertions: \<open>idx\<close> stays \<open>n - 1\<close> while \<open>d\<close>
  goes down, until \<open>d = n - 1\<close>, where \<open>idx = d\<close> passes the guard \<open>idx > d\<close> and \<open>v[idx+1]\<close>
  is read behind the \<open>d + 1\<close> values of the record.
\<close>

lemma trace_loop_first_deletion:
  assumes "\<forall>e<Suc d. H ! e = map int [0..<Suc e]" "1 \<le> n" "n \<le> Suc d"
  shows "trace_loop max_n H (Suc d) (2 * int n - 1 - int d) trace = Inl OutOfBounds"
  using assms
proof (induction d arbitrary: trace)
  case 0
  then have n: "n = 1" by simp
  have H0: "H ! 0 = [0]" using "0.prems"(1) by simp
  show ?case
    unfolding n trace_loop.simps H0 Let_def by (simp add: c_div_def vec_read_def)
next
  case (Suc d)
  define v where "v = map int [0..<Suc (Suc d)]"
  have Hd: "H ! Suc d = v" using Suc.prems(1) by (simp add: v_def)
  have len: "length v = Suc d + 1" by (simp add: v_def)
  have idx: "c_div ((2 * int n - 1 - int (Suc d)) - 1 + int (Suc d)) 2 = int n - 1"
    using c_div_even [of "int n - 1"] by (simp add: algebra_simps)
  have x1: "vec_read v (int n - 1) = Inr (int n - 1)"
  proof -
    have "n - 1 < Suc (Suc d)" using Suc.prems by simp
    then have "v ! (n - 1) = int (n - 1)"
      unfolding v_def by (subst nth_map) (simp_all del: upt_Suc)
    moreover have "nat (int n - 1) = n - 1" by simp
    ultimately show ?thesis
      using Suc.prems(2,3) unfolding vec_read_def len by (simp add: of_nat_diff)
  qed
  have g1: "\<not> int n - 1 < 0" using Suc.prems(2) by simp
  have g2: "\<not> int n - 1 > int (Suc d)" using Suc.prems(3) by simp
  show ?case
  proof (cases "n = Suc (Suc d)")
    case True
    have x2: "vec_read v (int n) = Inl OutOfBounds"
      unfolding vec_read_def len True by simp
    show ?thesis
      unfolding trace_loop.simps(2) [of max_n H "Suc d"] Hd Let_def idx
      using g1 g2 by (simp add: len x1 x2 del: trace_loop.simps)
  next
    case False
    then have le: "n \<le> Suc d" using Suc.prems(3) by simp
    have x2: "vec_read v (int n) = Inr (int n)"
    proof -
      have "v ! n = int n"
        using le unfolding v_def by (subst nth_map) (simp_all del: upt_Suc)
      then show ?thesis using le unfolding vec_read_def len by simp
    qed
    have k: "2 * int n - 1 - int (Suc d) + 1 = 2 * int n - 1 - int d" by simp
    have IH: "trace_loop max_n H (Suc d) (2 * int n - 1 - int d) tr = Inl OutOfBounds" for tr
      using Suc.prems(1,2) le by (intro Suc.IH) simp_all
    have "trace_loop max_n H (Suc (Suc d)) (2 * int n - 1 - int (Suc d)) trace
          = trace_loop max_n H (Suc d) (2 * int n - 1 - int (Suc d) + 1)
              (trace @ [(int n, int n - (2 * int n - 1 - int (Suc d) + 1))])"
      unfolding trace_loop.simps(2) [of max_n H "Suc d"] Hd Let_def idx
      using g1 g2 by (simp add: len x1 x2 del: trace_loop.simps)
    then show ?thesis unfolding k IH .
  qed
qed

lemma shortest_edit_script_disjoint:
  assumes "a \<noteq> []" "set a \<inter> set b = {}" "int (length a + length b) \<le> max_diff"
  shows "shortest_edit_script a b = Inl OutOfBounds"
proof -
  obtain H where H: "find_shortest_path a b = Inr H"
    unfolding find_shortest_path_rounds by blast
  have len: "length H = length a + length b"
    using history_disjoint(1) [OF assms(2) H] assms(3) by simp
  note rec = history_disjoint(2) [OF assms(2) H]
  have n: "1 \<le> length a" using assms(1) by (cases a) simp_all
  define d where "d = length a + length b - 1"
  have Sd: "length H = Suc d" using len n by (simp add: d_def)
  have k: "int (length a) - int (length b) = 2 * int (length a) - 1 - int d"
    using n by (simp add: d_def of_nat_diff)
  have "trace_loop max_n H (Suc d) (2 * int (length a) - 1 - int d) trace = Inl OutOfBounds"
    for max_n trace
    using rec n unfolding Sd by (intro trace_loop_first_deletion) (simp_all add: d_def)
  then have "reconstruct_trace (int (length a)) (int (length b)) H = Inl OutOfBounds"
    unfolding reconstruct_trace_def Sd k by simp
  then show ?thesis
    unfolding shortest_edit_script_def H by simp
qed

section \<open>A search that ends gives a bound on the edit distance\<close>

lemma common_subseq_le_lcs: "subseq cs xs \<Longrightarrow> subseq cs ys \<Longrightarrow> length cs \<le> lcs xs ys"
proof (induction xs ys arbitrary: cs rule: lcs.induct)
  case (1 ys)
  then show ?case by simp
next
  case (2 x xs)
  then show ?case by simp
next
  case (3 x xs y ys)
  show ?case
  proof (cases cs)
    case Nil
    then show ?thesis by simp
  next
    case (Cons c cs')
    show ?thesis
    proof (cases "x = y")
      case True
      have "subseq cs' xs" "subseq cs' ys"
        using "3.prems" Cons by (auto split: if_splits dest: subseq_Cons')
      then have "length cs' \<le> lcs xs ys" using "3.IH"(1) True by simp
      then show ?thesis using True Cons by simp
    next
      case False
      then have "subseq cs xs \<or> subseq cs ys"
        using "3.prems" Cons by (auto simp: subseq_Cons2_iff split: if_splits)
      then show ?thesis
      proof
        assume "subseq cs xs"
        then have "length cs \<le> lcs xs (y # ys)"
          using "3.IH"(2) [OF False] "3.prems"(2) by blast
        then show ?thesis using False by simp
      next
        assume "subseq cs ys"
        then have "length cs \<le> lcs (x # xs) ys"
          using "3.IH"(3) [OF False] "3.prems"(1) by blast
        then show ?thesis using False by simp
      qed
    qed
  qed
qed

lemma subseq_take_mono: "subseq cs (take i xs) \<Longrightarrow> i \<le> j \<Longrightarrow> subseq cs (take j xs)"
proof -
  assume s: "subseq cs (take i xs)" and le: "i \<le> j"
  have "take j xs = take i xs @ take (j - i) (drop i xs)"
    using le take_add [of i "j - i" xs] by simp
  then show ?thesis using s list_emb_append_mono [OF s, of "[]" "take (j - i) (drop i xs)"]
    by simp
qed

lemma good_del:
  assumes "good a b d (x, y)"
  shows "good a b (Suc d) (x + 1, y)"
proof -
  from assms obtain cs where cs: "subseq cs (take (nat x) a)" "subseq cs (take (nat y) b)"
    and le: "x + y \<le> int d + 2 * int (length cs)"
    unfolding good_def by auto
  have "subseq cs (take (nat (x + 1)) a)"
    by (rule subseq_take_mono [OF cs(1)]) simp
  with cs(2) le show ?thesis
    unfolding good_def by (intro exI [of _ cs]) simp
qed

lemma good_ins:
  assumes "good a b d (x, y)"
  shows "good a b (Suc d) (x, y + 1)"
proof -
  from assms obtain cs where cs: "subseq cs (take (nat x) a)" "subseq cs (take (nat y) b)"
    and le: "x + y \<le> int d + 2 * int (length cs)"
    unfolding good_def by auto
  have "subseq cs (take (nat (y + 1)) b)"
    by (rule subseq_take_mono [OF cs(2)]) simp
  with cs(1) le show ?thesis
    unfolding good_def by (intro exI [of _ cs]) simp
qed

lemma good_snake:
  assumes "good a b d (x, y)" "0 \<le> x" "0 \<le> y"
  shows "good a b d (snake_pt a b (x, y))"
proof (cases "snake a b x y = x")
  case True
  then show ?thesis using assms(1) by (simp add: snake_pt_def)
next
  case False
  then have ext: "x < int (length a) \<and> y < int (length b)"
    by (subst (asm) snake.simps) (auto split: if_splits)
  define l where "l = nat (snake a b x y - x)"
  have sx: "snake a b x y = x + int l"
    using snake_ge [of x a b y] by (simp add: l_def)
  have la: "nat x + l \<le> length a"
    using snake_le [of x a b y] ext assms(2) sx by linarith
  have lb: "nat y + l \<le> length b"
    using snake_le2 [of y b a x] ext assms(3) sx by linarith
  have seg: "take l (drop (nat x) a) = take l (drop (nat y) b)"
    using snake_segment [OF assms(2,3), of a b] by (simp add: l_def)
  from assms(1) obtain cs where cs: "subseq cs (take (nat x) a)" "subseq cs (take (nat y) b)"
    and le: "x + y \<le> int d + 2 * int (length cs)"
    unfolding good_def by auto
  let ?cs = "cs @ take l (drop (nat x) a)"
  have ta: "take (nat (x + int l)) a = take (nat x) a @ take l (drop (nat x) a)"
    using assms(2) by (simp add: nat_add_distrib take_add)
  have tb: "take (nat (y + int l)) b = take (nat y) b @ take l (drop (nat y) b)"
    using assms(3) by (simp add: nat_add_distrib take_add)
  have "subseq ?cs (take (nat (x + int l)) a)"
    unfolding ta using cs(1) by (intro list_emb_append_mono) simp_all
  moreover have "subseq ?cs (take (nat (y + int l)) b)"
    unfolding tb seg using cs(2) by (intro list_emb_append_mono) simp_all
  moreover have "length ?cs = length cs + l" using la by simp
  ultimately show ?thesis
    unfolding good_def snake_pt_def using le sx
    by (intro exI [of _ ?cs]) simp
qed

lemma pt_step:
  assumes "j \<le> Suc d"
  shows "j \<le> d \<and> ins_link a b (pt a b d j) (pt a b (Suc d) j)
         \<or> 0 < j \<and> del_link a b (pt a b d (j - 1)) (pt a b (Suc d) j)"
proof -
  let ?v = "prev_round a b (Suc d)"
  consider "j = 0" | "0 < j" "j = Suc d" | "0 < j" "j \<le> d" "?v ! (j - 1) < ?v ! j"
    | "0 < j" "j \<le> d" "\<not> ?v ! (j - 1) < ?v ! j"
    using assms by linarith
  then show ?thesis
  proof cases
    case 1
    then have "start_x ?v (Suc d) j = ?v ! j" by (simp add: start_x_def)
    then show ?thesis using pt_ins [of j d a b] 1 by simp
  next
    case 2
    then have "start_x ?v (Suc d) (Suc (j - 1)) = ?v ! (j - 1) + 1" by (simp add: start_x_def)
    then show ?thesis using pt_del [of "j - 1" d a b] 2 by simp
  next
    case 3
    then have "start_x ?v (Suc d) j = ?v ! j" by (simp add: start_x_def)
    then show ?thesis using pt_ins [of j d a b] 3 by simp
  next
    case 4
    then have "start_x ?v (Suc d) (Suc (j - 1)) = ?v ! (j - 1) + 1" by (simp add: start_x_def)
    then show ?thesis using pt_del [of "j - 1" d a b] 4 by simp
  qed
qed

lemma pt_good: "j \<le> d \<Longrightarrow> good a b d (pt a b d j)"
proof (induction d arbitrary: j)
  case 0
  have "good a b 0 (0, 0)" unfolding good_def by (intro exI [of _ "[]"]) simp
  from good_snake [OF this] show ?case
    using 0 by (simp add: pt_0 snake_pt_def)
next
  case (Suc d)
  from pt_step [OF Suc.prems, of a b] show ?case
  proof
    assume h: "j \<le> d \<and> ins_link a b (pt a b d j) (pt a b (Suc d) j)"
    obtain x y where p: "pt a b d j = (x, y)" by (cases "pt a b d j")
    have nn: "0 \<le> x" "0 \<le> y" using pt_nonneg [of j d a b] h p by auto
    have "good a b (Suc d) (x, y + 1)" using Suc.IH [of j] h p good_ins by metis
    from good_snake [OF this] nn show ?thesis
      using h unfolding p ins_link_def by simp
  next
    assume h: "0 < j \<and> del_link a b (pt a b d (j - 1)) (pt a b (Suc d) j)"
    obtain x y where p: "pt a b d (j - 1) = (x, y)" by (cases "pt a b d (j - 1)")
    have jd: "j - 1 \<le> d" using Suc.prems by simp
    have nn: "0 \<le> x" "0 \<le> y" using pt_nonneg [OF jd, of a b] p by auto
    have "good a b (Suc d) (x + 1, y)" using Suc.IH [OF jd] p good_del by metis
    from good_snake [OF this] nn show ?thesis
      using h unfolding p del_link_def by simp
  qed
qed

text \<open>A search that ends after \<open>d\<close> rounds has found \<open>d\<close> edits that turn \<open>a\<close> into \<open>b\<close>.\<close>

lemma converged_distance:
  assumes "find_shortest_path a b = Inr H" "int (length H) < max_diff"
  shows "edit_distance a b \<le> length H"
proof -
  from history_end [OF assms] obtain j where j: "j \<le> length H"
    and p: "pt a b (length H) j = (int (length a), int (length b))" by blast
  from pt_good [OF j, of a b] obtain cs where "subseq cs a" "subseq cs b"
    and le: "int (length a) + int (length b) \<le> int (length H) + 2 * int (length cs)"
    unfolding p good_def by auto
  then have "length cs \<le> lcs a b" by (intro common_subseq_le_lcs)
  with le show ?thesis unfolding edit_distance_def by linarith
qed

section \<open>Hunks\<close>

text \<open>
  \<open>collect_hunks\<close> skips the \<open>Nop\<close> instructions; the hunk it has open is the hunk of the
  group that \<open>groups_from\<close> has open.
\<close>

lemma collect_hunks_filter:
  "collect_hunks hs s = collect_hunks hs (filter (\<lambda>e. type e \<noteq> Nop) s)"
  by (induction s arbitrary: hs) simp_all

lemma new_Hunk_hunk_of: "new_Hunk e = hunk_of [e]"
  by (simp add: new_Hunk_def hunk_of_def)

lemma mergeable_hunk_of: "g \<noteq> [] \<Longrightarrow> mergeable (hunk_of g) e = joins (last g) e"
  by (simp add: mergeable_def hunk_of_def joins_def)

lemma add_edit_script_hunk_of: "g \<noteq> [] \<Longrightarrow> add_edit_script (hunk_of g) e = hunk_of (g @ [e])"
  by (simp add: add_edit_script_def hunk_of_def)

lemma collect_hunks_open:
  assumes "g \<noteq> []" "\<forall>e \<in> set es. type e \<noteq> Nop"
  shows "collect_hunks (hs @ [hunk_of g]) es = hs @ map hunk_of (groups_from g es)"
  using assms
proof (induction es arbitrary: g hs)
  case Nil
  then show ?case by simp
next
  case (Cons e es)
  have ne: "type e \<noteq> Nop" and rest: "\<forall>e \<in> set es. type e \<noteq> Nop"
    using Cons.prems(2) by simp_all
  show ?case
  proof (cases "joins (last g) e")
    case True
    have "collect_hunks (hs @ [hunk_of g]) (e # es) = collect_hunks (hs @ [hunk_of (g @ [e])]) es"
      using ne True Cons.prems(1)
      by (simp add: mergeable_hunk_of add_edit_script_hunk_of)
    also have "\<dots> = hs @ map hunk_of (groups_from (g @ [e]) es)"
      using rest by (intro Cons.IH) simp_all
    finally show ?thesis using True by simp
  next
    case False
    have "collect_hunks (hs @ [hunk_of g]) (e # es)
          = collect_hunks ((hs @ [hunk_of g]) @ [hunk_of [e]]) es"
      using ne False Cons.prems(1)
      by (simp add: mergeable_hunk_of new_Hunk_hunk_of)
    also have "\<dots> = (hs @ [hunk_of g]) @ map hunk_of (groups_from [e] es)"
      using rest by (intro Cons.IH) simp_all
    finally show ?thesis using False by simp
  qed
qed

lemma collect_hunks_groups:
  "collect_hunks [] s = map hunk_of (hunk_groups (filter (\<lambda>e. type e \<noteq> Nop) s))"
proof (cases "filter (\<lambda>e. type e \<noteq> Nop) s")
  case Nil
  then show ?thesis by (subst collect_hunks_filter) simp
next
  case (Cons e es)
  then have "set (e # es) = {x \<in> set s. type x \<noteq> Nop}"
    using set_filter [of "\<lambda>e. type e \<noteq> Nop" s] by simp
  then have ne: "type e \<noteq> Nop" and rest: "\<forall>e \<in> set es. type e \<noteq> Nop" by auto
  have "collect_hunks [] (e # es) = collect_hunks ([] @ [hunk_of [e]]) es"
    using ne by (simp add: new_Hunk_hunk_of)
  also have "\<dots> = [] @ map hunk_of (groups_from [e] es)"
    using rest by (intro collect_hunks_open) simp_all
  finally show ?thesis
    by (subst collect_hunks_filter) (simp add: Cons)
qed

lemma normalize_range_idem:
  "normalize_range (normalize_range h n m) n m = normalize_range h n m"
  by (simp add: normalize_range_def)

lemma hunk_print_normalized:
  "hunk_print_modifications (normalize_range h (int (length a)) (int (length b))) a b
   = hunk_print_modifications h a b"
  unfolding hunk_print_modifications_def normalize_range_idem ..

lemma print_hunks_normalized:
  "print_hunks (map (\<lambda>h. normalize_range h (int (length a)) (int (length b))) hs) a b
   = print_hunks hs a b"
  by (induction hs) (simp_all add: hunk_print_normalized)

section \<open>Beyond the search bound\<close>

text \<open>
  C1, as the specification states it for every pair of sequences, fails for \<open>a = []\<close> and
  a sequence \<open>b\<close> of 10001 elements: the search stops after its 10000 rounds, and the
  script returned adds only the last 10000 elements of \<open>b\<close>.
\<close>

theorem round_trip_counterexample:
  "shortest_edit_script ([] :: nat list) (replicate 10001 0)
     = Inr [mk_edit Nop 0 0 0 0, mk_edit Add 0 0 1 10000]
   \<and> apply_script [mk_edit Nop 0 0 0 0, mk_edit Add 0 0 1 10000] ([] :: nat list) (replicate 10001 0)
       \<noteq> replicate 10001 0"
  using shortest_edit_script_Nil [of "replicate 10001 (0 :: nat)"]
  by (simp add: max_diff_def apply_script_def)

text \<open>
  C5, as the code has it. The code has no \<open>EditDistanceExceeded\<close>: for every pair of
  sequences whose shortest edit distance is at least the ceiling \<open>max_diff = 10000\<close>,
  \<open>find_shortest_path\<close> returns normally, and the history it leaves has exactly
  \<open>max_diff\<close> records.
\<close>

theorem search_returns_without_signal:
  assumes "max_diff \<le> int (edit_distance a b)"
  shows "\<exists>H. find_shortest_path a b = Inr H \<and> int (length H) = max_diff"
proof -
  obtain H where H: "find_shortest_path a b = Inr H"
    unfolding find_shortest_path_rounds by blast
  have "\<not> int (length H) < max_diff"
    using converged_distance [OF H] assms by linarith
  with history_length_le [OF H] H show ?thesis by auto
qed

theorem search_returns_without_signal_witness:
  "max_diff \<le> int (edit_distance '''' (replicate 10001 CHR ''x''))
   \<and> (\<exists>H. find_shortest_path '''' (replicate 10001 CHR ''x'') = Inr H \<and> int (length H) = max_diff)"
proof -
  have h: "max_diff \<le> int (edit_distance '''' (replicate 10001 CHR ''x''))"
    by (simp add: edit_distance_def max_diff_def)
  from search_returns_without_signal [OF h] h show ?thesis by blast
qed

text \<open>
  C5, as the specification states it, fails for \<open>a = []\<close> and \<open>b\<close> of 10001 lines, whose
  edit distance 10001 exceeds the ceiling: \<open>shortest_edit_script\<close> reports no failure and
  returns a truncated script, an \<open>Add\<close> of the lines 2 to 10001 of \<open>b\<close>; applied to \<open>a\<close> it
  gives 10000 lines.
\<close>

theorem bound_enforcement_counterexample:
  "edit_distance '''' (replicate 10001 CHR ''x'') = 10001
   \<and> shortest_edit_script '''' (replicate 10001 CHR ''x'')
       = Inr [mk_edit Nop 0 0 0 0, mk_edit Add 0 0 1 10000]
   \<and> apply_script [mk_edit Nop 0 0 0 0, mk_edit Add 0 0 1 10000] '''' (replicate 10001 CHR ''x'')
       = replicate 10000 CHR ''x''"
  using shortest_edit_script_Nil [of "replicate 10001 CHR ''x''"]
  by (simp add: max_diff_def apply_script_def edit_distance_def)

section \<open>Minimality\<close>

text \<open>
  C2 fails on the code. For \<open>a = ''ab''\<close> and \<open>b = ''b''\<close> the edit distance is 1 and the
  search ends in round 1, within the bound, with the history \<open>[[0]]\<close>; \<open>reconstruct_trace\<close>
  then reads \<open>v[1]\<close> in the record of round 0 (the defect of C6), and no script is
  returned.
\<close>

theorem minimal_script_not_returned:
  "edit_distance ''ab'' ''b'' = 1
   \<and> find_shortest_path ''ab'' ''b'' = Inr [[0]]
   \<and> shortest_edit_script ''ab'' ''b'' = Inl OutOfBounds"
  by code_simp

section \<open>Disjoint inputs\<close>

text \<open>
  C4 fails on the code. For every non-empty \<open>a\<close> that shares no element with \<open>b\<close>, with
  \<open>n + m \<le> max_diff\<close>, \<open>reconstruct_trace\<close> reads \<open>v[n]\<close> behind the \<open>n\<close> values of the
  record of round \<open>n - 1\<close> (the defect of C6): no script is returned, so no single
  \<open>Change\<close>.
\<close>

theorem disjoint_inputs_read_past_record:
  assumes "a \<noteq> []" "set a \<inter> set b = {}" "int (length a + length b) \<le> max_diff"
  shows "shortest_edit_script a b = Inl OutOfBounds"
  using assms by (rule shortest_edit_script_disjoint)

theorem disjoint_inputs_read_past_record_witness:
  "[''A'', ''B''] \<noteq> [] \<and> set [''A'', ''B''] \<inter> set [''X'', ''Y'', ''Z''] = {}
   \<and> int (length [''A'', ''B''] + length [''X'', ''Y'', ''Z'']) \<le> max_diff
   \<and> shortest_edit_script [''A'', ''B''] [''X'', ''Y'', ''Z''] = Inl OutOfBounds"
proof -
  have h1: "[''A'', ''B''] \<noteq> []" by simp
  have h2: "set [''A'', ''B''] \<inter> set [''X'', ''Y'', ''Z''] = {}" by simp
  have h3: "int (length [''A'', ''B''] + length [''X'', ''Y'', ''Z'']) \<le> max_diff"
    by (simp add: max_diff_def)
  from disjoint_inputs_read_past_record [OF h1 h2 h3] h1 h2 h3 show ?thesis by blast
qed

section \<open>Hunks of the unified output\<close>

text \<open>
  C7, as the code has it. \<open>Nop\<close> instructions belong to no hunk. A non-\<open>Nop\<close> instruction
  is placed in the hunk of the non-\<open>Nop\<close> instruction before it exactly when its
  \<open>orig_start\<close> is at most \<open>orig_start + orig_length + 3\<close> of that instruction (the trailing
  edge of the hunk, recomputed from the last instruction added); otherwise it opens a
  new hunk. The window of a hunk runs from 3 lines before its first instruction to 3
  lines after its last, in \<open>a\<close> and in \<open>b\<close>. \<open>unified_print\<close> renders each hunk with its
  window clamped: the two starts raised to 0, the two ends lowered to \<open>n\<close> and \<open>m\<close>.
\<close>

theorem hunk_merging_by_trailing_window:
  "collect_hunks [] s = map hunk_of (hunk_groups (filter (\<lambda>e. type e \<noteq> Nop) s))
   \<and> unified_print a b s
       = print_hunks (map (\<lambda>g. normalize_range (hunk_of g) (int (length a)) (int (length b)))
            (hunk_groups (filter (\<lambda>e. type e \<noteq> Nop) s))) a b
   \<and> hunk_orig_start (normalize_range h n m) = max (hunk_orig_start h) 0
   \<and> hunk_orig_end (normalize_range h n m) = min (hunk_orig_end h) n
   \<and> hunk_new_start (normalize_range h n m) = max (hunk_new_start h) 0
   \<and> hunk_new_end (normalize_range h n m) = min (hunk_new_end h) m"
proof -
  have "unified_print a b s
        = print_hunks (map (\<lambda>h. normalize_range h (int (length a)) (int (length b)))
            (map hunk_of (hunk_groups (filter (\<lambda>e. type e \<noteq> Nop) s)))) a b"
    unfolding unified_print_def collect_hunks_groups print_hunks_normalized ..
  then have "unified_print a b s
       = print_hunks (map (\<lambda>g. normalize_range (hunk_of g) (int (length a)) (int (length b)))
            (hunk_groups (filter (\<lambda>e. type e \<noteq> Nop) s))) a b"
    by (simp add: comp_def)
  then show ?thesis
    using collect_hunks_groups [of s] by (simp add: normalize_range_def)
qed

theorem hunk_merging_witness:
  "collect_hunks [] [mk_edit Nop 0 0 0 0, mk_edit Add 0 0 0 1, mk_edit Nop 0 3 1 3,
        mk_edit Add 3 0 4 1, mk_edit Nop 3 3 5 3, mk_edit Delete 6 1 8 0, mk_edit Nop 7 10 8 10,
        mk_edit Add 17 0 18 1]
   = [\<lparr>hunk_edit_scripts = [mk_edit Add 0 0 0 1, mk_edit Add 3 0 4 1, mk_edit Delete 6 1 8 0],
       hunk_orig_start = - 3, hunk_orig_end = 10, hunk_new_start = - 3, hunk_new_end = 11\<rparr>,
      \<lparr>hunk_edit_scripts = [mk_edit Add 17 0 18 1],
       hunk_orig_start = 14, hunk_orig_end = 20, hunk_new_start = 15, hunk_new_end = 22\<rparr>]"
  using hunk_merging_by_trailing_window [of "[mk_edit Nop 0 0 0 0, mk_edit Add 0 0 0 1,
        mk_edit Nop 0 3 1 3, mk_edit Add 3 0 4 1, mk_edit Nop 3 3 5 3, mk_edit Delete 6 1 8 0,
        mk_edit Nop 7 10 8 10, mk_edit Add 17 0 18 1]"]
  by (simp add: joins_def hunk_of_def)

text \<open>
  C7, as the specification states it, fails in both directions. For \<open>123456\<close> against
  \<open>X12345Y6\<close> the two \<open>Add\<close> instructions have \<open>orig_start\<close> 0 and 5, which differ by
  \<open>5 \<le> 6\<close>, and are placed in two hunks. A \<open>Delete\<close> of the 10 lines from \<open>orig_start\<close> 1
  and an \<open>Add\<close> at \<open>orig_start\<close> 14 differ by \<open>13 > 6\<close> and are placed in one hunk.
\<close>

theorem hunk_merging_counterexample:
  "shortest_edit_script ''123456'' ''X12345Y6''
     = Inr [mk_edit Nop 0 0 0 0, mk_edit Add 0 0 0 1, mk_edit Nop 0 5 1 5,
            mk_edit Add 5 0 6 1, mk_edit Nop 5 1 7 1]
   \<and> orig_start (mk_edit Add 5 0 6 1) - orig_start (mk_edit Add 0 0 0 1) \<le> 6
   \<and> collect_hunks [] [mk_edit Nop 0 0 0 0, mk_edit Add 0 0 0 1, mk_edit Nop 0 5 1 5,
            mk_edit Add 5 0 6 1, mk_edit Nop 5 1 7 1]
       = [new_Hunk (mk_edit Add 0 0 0 1), new_Hunk (mk_edit Add 5 0 6 1)]
   \<and> orig_start (mk_edit Add 14 0 5 1) - orig_start (mk_edit Delete 1 10 2 0) > 6
   \<and> map hunk_edit_scripts
        (collect_hunks [] [mk_edit Nop 0 0 0 0, mk_edit Add 0 0 0 1, mk_edit Nop 0 1 1 1,
            mk_edit Delete 1 10 2 0, mk_edit Nop 11 3 2 3, mk_edit Add 14 0 5 1])
       = [[mk_edit Add 0 0 0 1, mk_edit Delete 1 10 2 0, mk_edit Add 14 0 5 1]]"
  by code_simp

end
